theory Spec2Isabelle
  imports Complex_Main "HOL-Library.Sublist"
begin

section \<open>Python values\<close>

text \<open>
  A Python \<open>str\<close> is a \<open>string\<close>: one \<open>char\<close> stands for one code point, so the
  development covers texts whose code points are below 256 (ASCII and Latin-1), and
  \<open>length\<close> is Python's \<open>len\<close>. A Python \<open>float\<close> is a \<open>real\<close>; the properties below
  depend on comparisons and on the order of operations only. An exception is a value
  that carries the message \<open>str(e)\<close> returns.
\<close>

datatype py_error =
    ValueError string
  | IndexError string
  | Raised string

fun str_of_error :: "py_error \<Rightarrow> string" where
  "str_of_error (ValueError m) = m"
| "str_of_error (IndexError m) = m"
| "str_of_error (Raised m) = m"

datatype py_value = PyStr string | PyInt int

fun str_nat :: "nat \<Rightarrow> string" where
  "str_nat n = (if n < 10 then [''0123456789'' ! n]
                else str_nat (n div 10) @ [''0123456789'' ! (n mod 10)])"

definition str_int :: "int \<Rightarrow> string" where
  "str_int i = (if i < 0 then CHR ''-'' # str_nat (nat (- i)) else str_nat (nat i))"

fun str_of_value :: "py_value \<Rightarrow> string" where
  "str_of_value (PyStr s) = s"
| "str_of_value (PyInt i) = str_int i"

type_synonym py_dict = "string \<rightharpoonup> py_value"

text \<open>\<open>d.get(key, default)\<close>.\<close>

definition dict_get :: "py_dict \<Rightarrow> string \<Rightarrow> py_value \<Rightarrow> py_value" where
  "dict_get d key dflt = (case d key of None \<Rightarrow> dflt | Some v \<Rightarrow> v)"

text \<open>
  Subscripting a list, \<open>xs[i]\<close>: positions \<open>0 .. len(xs) - 1\<close> read forwards,
  positions \<open>-len(xs) .. -1\<close> read backwards from the last element, and every other
  position raises \<open>IndexError\<close>.
\<close>

definition py_index :: "'a list \<Rightarrow> int \<Rightarrow> py_error + 'a" where
  "py_index xs i =
     (if 0 \<le> i \<and> i < int (length xs) then Inr (xs ! nat i)
      else if i < 0 \<and> - int (length xs) \<le> i then Inr (xs ! nat (int (length xs) + i))
      else Inl (IndexError ''list index out of range''))"

text \<open>\<open>sep.join(xs)\<close>.\<close>

fun py_join :: "string \<Rightarrow> string list \<Rightarrow> string" where
  "py_join sep [] = []"
| "py_join sep [x] = x"
| "py_join sep (x # y # ys) = x @ sep @ py_join sep (y # ys)"

section \<open>Whitespace: \<open>str.strip\<close>, \<open>str.split\<close>\<close>

text \<open>
  The code points below 256 for which \<open>str.isspace\<close> holds; the pattern \<open>\s\<close> matches
  the same ones.
\<close>

definition is_space :: "char \<Rightarrow> bool" where
  "is_space c = (of_char c \<in> {9, 10, 11, 12, 13, 28, 29, 30, 31, 32, 133, 160 :: nat})"

definition py_strip :: "string \<Rightarrow> string" where
  "py_strip s = rev (dropWhile is_space (rev (dropWhile is_space s)))"

text \<open>\<open>s.split()\<close>: the maximal runs of characters that are not whitespace.\<close>

fun split_ws :: "string \<Rightarrow> string \<Rightarrow> string list" where
  "split_ws w [] = (if w = [] then [] else [w])"
| "split_ws w (c # cs) =
     (if is_space c then (if w = [] then split_ws [] cs else w # split_ws [] cs)
      else split_ws (w @ [c]) cs)"

definition py_split :: "string \<Rightarrow> string list" where
  "py_split s = split_ws [] s"

text \<open>\<open>xs[n:]\<close>: a negative \<open>n\<close> keeps the last \<open>-n\<close> elements.\<close>

definition py_slice_from :: "int \<Rightarrow> 'a list \<Rightarrow> 'a list" where
  "py_slice_from n xs =
     (if n < 0 then drop (nat (int (length xs) + n)) xs else drop (nat n) xs)"

section \<open>Text cleaning (\<open>src/utils/text_processing.py\<close>)\<close>

text \<open>
  \<open>re.sub(pattern, '', text)\<close> for a pattern that matches no empty string. The scan
  goes from left to right: where the pattern matches, the match is dropped and the scan
  goes on behind it; elsewhere the character is kept. A matcher is given the character
  before the position (\<open>\b\<close> looks at it) and the text from the position on, and
  answers the length of the match that the backtracking engine finds there.
\<close>

function re_sub_delete ::
  "(char option \<Rightarrow> string \<Rightarrow> nat option) \<Rightarrow> char option \<Rightarrow> string \<Rightarrow> string" where
  "re_sub_delete m prev [] = []"
| "re_sub_delete m prev (c # cs) =
     (case m prev (c # cs) of
        None \<Rightarrow> c # re_sub_delete m (Some c) cs
      | Some n \<Rightarrow>
          if 0 < n \<and> n \<le> length (c # cs)
          then re_sub_delete m (Some ((c # cs) ! (n - 1))) (drop n (c # cs))
          else c # re_sub_delete m (Some c) cs)"
  by pat_completeness auto
termination
  by (relation "measure (\<lambda>(m, prev, s). length s)") auto

text \<open>The pattern \<open><[^>]+>\<close>.\<close>

definition match_tag :: "char option \<Rightarrow> string \<Rightarrow> nat option" where
  "match_tag prev s =
     (case s of
        [] \<Rightarrow> None
      | c # cs \<Rightarrow>
          if c = CHR ''<''
          then (let run = takeWhile (\<lambda>x. x \<noteq> CHR ''>'') cs
                in if run \<noteq> [] \<and> length run < length cs then Some (length run + 2)
                   else None)
          else None)"

text \<open>
  The URL pattern \<open>http[s]?://(?:[a-zA-Z]|[0-9]|[$-_@.&+]|[!*\\(\\),]|(?:%[0-9a-fA-F][0-9a-fA-F]))+\<close>.
  The class \<open>[$-_@.&+]\<close> holds the range from \<open>$\<close> to \<open>_\<close> (code points 36 to 95), so
  one repetition consumes one character out of: \<open>!\<close>, the code points 36 to 95, and
  the lower-case letters.
\<close>

definition url_char :: "char \<Rightarrow> bool" where
  "url_char c = (of_char c = (33 :: nat) \<or> (36 \<le> (of_char c :: nat) \<and> (of_char c :: nat) \<le> 95)
                 \<or> (97 \<le> (of_char c :: nat) \<and> (of_char c :: nat) \<le> 122))"

definition match_url :: "char option \<Rightarrow> string \<Rightarrow> nat option" where
  "match_url prev s =
     (let scheme = (if prefix ''https://'' s then Some 8
                    else if prefix ''http://'' s then Some 7 else None)
      in case scheme of
           None \<Rightarrow> None
         | Some k \<Rightarrow>
             (let run = takeWhile url_char (drop k s)
              in if run = [] then None else Some (k + length run)))"

text \<open>
  The e-mail pattern \<open>\b[A-Za-z0-9._%+-]+@[A-Za-z0-9.-]+\.[A-Z|a-z]{2,}\b\<close>. A word
  character (\<open>\w\<close>) below 256 is an alphanumeric character or the underscore.
\<close>

definition ascii_alnum :: "char \<Rightarrow> bool" where
  "ascii_alnum c = ((48 \<le> (of_char c :: nat) \<and> (of_char c :: nat) \<le> 57)
                    \<or> (65 \<le> (of_char c :: nat) \<and> (of_char c :: nat) \<le> 90)
                    \<or> (97 \<le> (of_char c :: nat) \<and> (of_char c :: nat) \<le> 122))"

definition is_word :: "char \<Rightarrow> bool" where
  "is_word c = (ascii_alnum c \<or> c = CHR ''_''
                \<or> of_char c \<in> {170, 178, 179, 181, 185, 186, 188, 189, 190 :: nat}
                \<or> (192 \<le> (of_char c :: nat) \<and> (of_char c :: nat) \<le> 214)
                \<or> (216 \<le> (of_char c :: nat) \<and> (of_char c :: nat) \<le> 246)
                \<or> 248 \<le> (of_char c :: nat))"

definition local_char :: "char \<Rightarrow> bool" where
  "local_char c = (ascii_alnum c \<or> c \<in> set ''._%+-'')"

definition domain_char :: "char \<Rightarrow> bool" where
  "domain_char c = (ascii_alnum c \<or> c \<in> set ''.-'')"

definition tld_char :: "char \<Rightarrow> bool" where
  "tld_char c = ((65 \<le> (of_char c :: nat) \<and> (of_char c :: nat) \<le> 90)
                 \<or> (97 \<le> (of_char c :: nat) \<and> (of_char c :: nat) \<le> 122)
                 \<or> c = CHR ''|'')"

text \<open>\<open>\b\<close> between the character \<open>prev\<close> and the text \<open>s\<close>.\<close>

definition word_boundary :: "char option \<Rightarrow> string \<Rightarrow> bool" where
  "word_boundary prev s =
     ((case prev of None \<Rightarrow> False | Some c \<Rightarrow> is_word c)
      \<noteq> (case s of [] \<Rightarrow> False | c # cs \<Rightarrow> is_word c))"

fun first_some :: "('a \<Rightarrow> 'b option) \<Rightarrow> 'a list \<Rightarrow> 'b option" where
  "first_some f [] = None"
| "first_some f (x # xs) = (case f x of None \<Rightarrow> first_some f xs | Some y \<Rightarrow> Some y)"

text \<open>
  \<open>[A-Z|a-z]{2,}\b\<close> at the start of \<open>s\<close>: the longest run first, then shorter ones,
  down to two characters.
\<close>

definition match_tld :: "string \<Rightarrow> nat option" where
  "match_tld s =
     first_some
       (\<lambda>t. if word_boundary (Some (s ! (t - 1))) (drop t s) then Some t else None)
       (rev [2..<Suc (length (takeWhile tld_char s))])"

text \<open>
  \<open>[A-Za-z0-9.-]+\.[A-Z|a-z]{2,}\b\<close> at the start of \<open>s\<close>: the longest domain run
  first, then shorter ones, each followed by a dot and the top-level part.
\<close>

definition match_domain :: "string \<Rightarrow> nat option" where
  "match_domain s =
     first_some
       (\<lambda>d. if d < length s \<and> s ! d = CHR ''.''
            then map_option (\<lambda>t. d + 1 + t) (match_tld (drop (d + 1) s))
            else None)
       (rev [1..<Suc (length (takeWhile domain_char s))])"

definition match_email :: "char option \<Rightarrow> string \<Rightarrow> nat option" where
  "match_email prev s =
     (if word_boundary prev s
      then (let local_part = takeWhile local_char s
            in if local_part = [] then None
               else (case drop (length local_part) s of
                       [] \<Rightarrow> None
                     | c # rest \<Rightarrow>
                         if c = CHR ''@''
                         then map_option (\<lambda>d. length local_part + 1 + d) (match_domain rest)
                         else None))
      else None)"

text \<open>\<open>re.sub(r'\s+', ' ', text)\<close>.\<close>

function collapse_whitespace :: "string \<Rightarrow> string" where
  "collapse_whitespace [] = []"
| "collapse_whitespace (c # cs) =
     (if is_space c then CHR '' '' # collapse_whitespace (dropWhile is_space cs)
      else c # collapse_whitespace cs)"
  by pat_completeness auto
termination
  by (relation "measure length") (auto simp: length_dropWhile_le less_Suc_eq_le)

text \<open>
  \<open>clean_text\<close>. \<open>html.unescape\<close> belongs to the standard library and is a parameter;
  it returns a text without \<open>&\<close> unchanged.
\<close>

definition clean_text ::
  "(string \<Rightarrow> string) \<Rightarrow> string \<Rightarrow> bool \<Rightarrow> bool \<Rightarrow> bool \<Rightarrow> bool \<Rightarrow> string" where
  "clean_text unescape text remove_html remove_urls remove_emails normalize_whitespace =
     (if text = [] then []
      else
        let t1 = (if remove_html then unescape (re_sub_delete match_tag None text) else text);
            t2 = (if remove_urls then re_sub_delete match_url None t1 else t1);
            t3 = (if remove_emails then re_sub_delete match_email None t2 else t2);
            t4 = (if normalize_whitespace then py_strip (collapse_whitespace t3) else t3)
        in t4)"

section \<open>Chunking (\<open>src/utils/text_processing.py\<close>)\<close>

text \<open>
  \<open>re.split(r'[.!?]+', text)\<close>: the pieces between the maximal runs of sentence
  terminators, the empty pieces at both ends included. \<open>in_run\<close> says that the
  character before was a terminator.
\<close>

definition is_terminator :: "char \<Rightarrow> bool" where
  "is_terminator c = (c = CHR ''.'' \<or> c = CHR ''!'' \<or> c = CHR ''?'')"

fun re_split_acc :: "string \<Rightarrow> bool \<Rightarrow> string \<Rightarrow> string list" where
  "re_split_acc piece in_run [] = [piece]"
| "re_split_acc piece in_run (c # cs) =
     (if is_terminator c
      then (if in_run then re_split_acc [] True cs else piece # re_split_acc [] True cs)
      else re_split_acc (piece @ [c]) False cs)"

definition re_split_terminators :: "string \<Rightarrow> string list" where
  "re_split_terminators text = re_split_acc [] False text"

text \<open>\<open>[s.strip() for s in sentences if s.strip()]\<close>.\<close>

definition sentences_of :: "string \<Rightarrow> string list" where
  "sentences_of text =
     map py_strip (filter (\<lambda>s. py_strip s \<noteq> []) (re_split_terminators text))"

text \<open>The loop over the sentences, on the pair of \<open>chunks\<close> and \<open>current_chunk\<close>.\<close>

fun sentence_loop ::
  "int \<Rightarrow> int \<Rightarrow> string list \<Rightarrow> string list \<Rightarrow> string \<Rightarrow> string list \<times> string" where
  "sentence_loop min_chunk_size max_chunk_size [] chunks current_chunk = (chunks, current_chunk)"
| "sentence_loop min_chunk_size max_chunk_size (sentence # rest) chunks current_chunk =
     (if int (length current_chunk) + int (length sentence) > max_chunk_size
         \<and> current_chunk \<noteq> []
      then sentence_loop min_chunk_size max_chunk_size rest
             (if int (length current_chunk) \<ge> min_chunk_size
              then chunks @ [py_strip current_chunk] else chunks)
             sentence
      else sentence_loop min_chunk_size max_chunk_size rest chunks
             (if current_chunk \<noteq> [] then current_chunk @ '' '' @ sentence else sentence))"

definition sentence_chunks :: "string list \<Rightarrow> int \<Rightarrow> int \<Rightarrow> string list" where
  "sentence_chunks sentences min_chunk_size max_chunk_size =
     (case sentence_loop min_chunk_size max_chunk_size sentences [] [] of
        (chunks, current_chunk) \<Rightarrow>
          if current_chunk \<noteq> [] \<and> int (length current_chunk) \<ge> min_chunk_size
          then chunks @ [py_strip current_chunk] else chunks)"

text \<open>
  The loop over the words; \<open>-chunk_overlap//10\<close> is \<open>(-chunk_overlap)//10\<close> with the
  quotient rounded down.
\<close>

fun word_loop ::
  "int \<Rightarrow> int \<Rightarrow> string list \<Rightarrow> string list \<Rightarrow> string \<Rightarrow> string list \<times> string" where
  "word_loop chunk_size chunk_overlap [] chunks current_chunk = (chunks, current_chunk)"
| "word_loop chunk_size chunk_overlap (word # rest) chunks current_chunk =
     (if int (length current_chunk) + int (length word) + 1 > chunk_size
         \<and> current_chunk \<noteq> []
      then (let overlap_words = py_slice_from ((- chunk_overlap) div 10)
                                  (py_split current_chunk)
            in word_loop chunk_size chunk_overlap rest
                 (chunks @ [py_strip current_chunk])
                 (py_join '' '' overlap_words @ '' '' @ word))
      else word_loop chunk_size chunk_overlap rest chunks
             (if current_chunk \<noteq> [] then current_chunk @ '' '' @ word else word))"

definition word_chunks :: "string list \<Rightarrow> int \<Rightarrow> int \<Rightarrow> string list" where
  "word_chunks words chunk_size chunk_overlap =
     (case word_loop chunk_size chunk_overlap words [] [] of
        (chunks, current_chunk) \<Rightarrow>
          if current_chunk \<noteq> [] then chunks @ [py_strip current_chunk] else chunks)"

definition chunk_text ::
  "(string \<Rightarrow> string) \<Rightarrow> string \<Rightarrow> int \<Rightarrow> int \<Rightarrow> int \<Rightarrow> int \<Rightarrow> string list" where
  "chunk_text unescape text chunk_size chunk_overlap min_chunk_size max_chunk_size =
     (if text = [] then []
      else
        let cleaned = clean_text unescape text True True True True;
            chunks = sentence_chunks (sentences_of cleaned) min_chunk_size max_chunk_size
        in if length chunks \<le> 1
           then word_chunks (py_split cleaned) chunk_size chunk_overlap
           else chunks)"

text \<open>
  \<open>html.unescape\<close> on a text that holds no \<open>&\<close>: the text itself. The concrete texts
  below hold none.
\<close>

definition unescape_plain :: "string \<Rightarrow> string" where
  "unescape_plain s = s"

section \<open>Terms of the chunking properties\<close>

text \<open>
  A text is trimmed when it is not empty and neither starts nor ends with whitespace;
  a word is a non-empty text without whitespace.
\<close>

definition trimmed :: "string \<Rightarrow> bool" where
  "trimmed s = (s \<noteq> [] \<and> \<not> is_space (hd s) \<and> \<not> is_space (last s))"

definition space_free :: "string \<Rightarrow> bool" where
  "space_free w = (w \<noteq> [] \<and> (\<forall>c \<in> set w. \<not> is_space c))"

text \<open>
  A group of sentences is kept when its join reaches \<open>min_chunk_size\<close>; a group of two
  or more sentences stays within \<open>max_chunk_size\<close> when the lengths of its sentences
  add up to at most that.
\<close>

definition keeps :: "int \<Rightarrow> string list \<Rightarrow> bool" where
  "keeps min_chunk_size g = (min_chunk_size \<le> int (length (py_join '' '' g)))"

definition sentences_length :: "string list \<Rightarrow> int" where
  "sentences_length g = sum_list (map (\<lambda>s. int (length s)) g)"

definition run_within :: "int \<Rightarrow> string list \<Rightarrow> bool" where
  "run_within max_chunk_size g = (2 \<le> length g \<longrightarrow> sentences_length g \<le> max_chunk_size)"

text \<open>
  \<open>holds_words cur ws\<close>: the running chunk \<open>cur\<close> of the word loop is the join of the
  words \<open>ws\<close>, with one blank in front when the overlap was empty. A chunk ends with
  the words \<open>new_words\<close> when they are its last words.
\<close>

definition holds_words :: "string \<Rightarrow> string list \<Rightarrow> bool" where
  "holds_words cur ws =
     ((cur = [] \<and> ws = []) \<or>
      (ws \<noteq> [] \<and> (\<forall>w \<in> set ws. space_free w) \<and>
       (cur = py_join '' '' ws \<or> cur = CHR '' '' # py_join '' '' ws)))"

definition ends_with :: "string list \<Rightarrow> string \<Rightarrow> bool" where
  "ends_with new_words chunk = suffix new_words (py_split chunk)"

definition within_max :: "int \<Rightarrow> string \<Rightarrow> bool" where
  "within_max max_chunk_size chunk = (int (length chunk) \<le> max_chunk_size)"

text \<open>
  A text matches a pattern when the pattern, tried at its start, consumes all of it.
  A chunk is a segment of the cleaned text when it is the join, by single blanks, of
  consecutive sentences or of consecutive words of that text.
\<close>

definition is_tag :: "string \<Rightarrow> bool" where
  "is_tag t = (match_tag None t = Some (length t))"

definition is_url :: "string \<Rightarrow> bool" where
  "is_url t = (match_url None t = Some (length t))"

definition is_email :: "string \<Rightarrow> bool" where
  "is_email t = (match_email None t = Some (length t))"

definition holds_tag :: "string \<Rightarrow> bool" where
  "holds_tag s = (\<exists>t. is_tag t \<and> sublist t s)"

definition segment_of :: "string \<Rightarrow> string \<Rightarrow> bool" where
  "segment_of cleaned chunk =
     (\<exists>g. (sublist g (sentences_of cleaned) \<or> sublist g (py_split cleaned)) \<and>
          chunk = py_join '' '' g)"

definition stripped_pieces :: "string list \<Rightarrow> string list" where
  "stripped_pieces pieces = map py_strip (filter (\<lambda>s. py_strip s \<noteq> []) pieces)"

text \<open>
  A scan for the tag pattern. After \<open><\<close> the next character decides: \<open>>\<close> closes
  nothing and the scan is clear again, any other character opens a tag, and from then
  on a \<open>>\<close> would complete a match. \<open>tag_run\<close> is \<open>None\<close> when it meets that \<open>>\<close>.
\<close>

datatype tag_state = Clear | JustLt | Open

fun tag_step :: "tag_state \<Rightarrow> char \<Rightarrow> tag_state option" where
  "tag_step Clear c = Some (if c = CHR ''<'' then JustLt else Clear)"
| "tag_step JustLt c = Some (if c = CHR ''>'' then Clear else Open)"
| "tag_step Open c = (if c = CHR ''>'' then None else Some Open)"

fun tag_run :: "tag_state \<Rightarrow> string \<Rightarrow> tag_state option" where
  "tag_run q [] = Some q"
| "tag_run q (c # cs) = (case tag_step q c of None \<Rightarrow> None | Some q' \<Rightarrow> tag_run q' cs)"

fun weaker :: "tag_state \<Rightarrow> tag_state \<Rightarrow> bool" where
  "weaker Clear q = True"
| "weaker JustLt q = (q \<noteq> Clear)"
| "weaker Open q = (q = Open)"

fun after_other :: "tag_state \<Rightarrow> tag_state" where
  "after_other Clear = Clear"
| "after_other JustLt = Open"
| "after_other Open = Open"

definition other_char :: "char \<Rightarrow> bool" where
  "other_char c = (c \<noteq> CHR ''<'' \<and> c \<noteq> CHR ''>'')"

section \<open>The vector database (\<open>src/embedding/vector_database.py\<close>)\<close>

datatype index_type = IndexFlatIP | IndexFlatL2

text \<open>
  The FAISS flat index holds the rows it was given, in order; \<open>ntotal\<close> is their
  number. The library itself is not part of the repository: its \<open>add\<close> and \<open>search\<close>
  are parameters of the operations below.
\<close>

record vector_database =
  index_type :: index_type
  dimension :: nat
  top_k :: int
  similarity_threshold :: real
  normalize_L2 :: bool
  index :: "real list list"
  documents :: "string list"
  metadata :: "py_dict list"

record search_result =
  r_index :: int
  r_text :: string
  r_metadata :: py_dict
  r_similarity :: real
  r_distance :: real
  r_rank :: int

text \<open>\<open>np.linalg.norm\<close> of a vector, and \<open>faiss.normalize_L2\<close> of one row.\<close>

definition l2_norm :: "real list \<Rightarrow> real" where
  "l2_norm v = sqrt (sum_list (map (\<lambda>x. x * x) v))"

definition faiss_normalize_row :: "real list \<Rightarrow> real list" where
  "faiss_normalize_row v = (if l2_norm v > 0 then map (\<lambda>x. x / l2_norm v) v else v)"

text \<open>
  \<open>add_documents\<close>. The result is the exception raised, if any, and the database after
  the call. \<open>faiss_add\<close> is \<open>index.add\<close>; \<open>meta\<close> is the optional \<open>metadata\<close> argument
  (\<open>None\<close> and the empty list are both false).
\<close>

definition default_metadata :: "nat \<Rightarrow> py_dict list" where
  "default_metadata n = map (\<lambda>i. [''index'' \<mapsto> PyInt (int i)]) [0..<n]"

definition add_documents ::
  "(real list list \<Rightarrow> real list list \<Rightarrow> py_error + real list list) \<Rightarrow>
   vector_database \<Rightarrow> string list \<Rightarrow> real list list \<Rightarrow> py_dict list option \<Rightarrow>
   py_error option \<times> vector_database" where
  "add_documents faiss_add db docs embeddings meta =
     (if length docs \<noteq> length embeddings
      then (Some (ValueError ''Number of documents must match number of embeddings''), db)
      else
        let embeddings' = (if normalize_L2 db then map faiss_normalize_row embeddings
                           else embeddings)
        in case faiss_add (index db) embeddings' of
             Inl e \<Rightarrow> (Some e, db)
           | Inr ix \<Rightarrow>
               (None,
                db\<lparr>index := ix,
                   documents := documents db @ docs,
                   metadata := metadata db @
                     (case meta of
                        None \<Rightarrow> default_metadata (length docs)
                      | Some ms \<Rightarrow> if ms = [] then default_metadata (length docs) else ms)\<rparr>))"

text \<open>
  \<open>search\<close>: \<open>k or self.top_k\<close>, the query normalised when configured, then
  \<open>index.search\<close>, which returns \<open>k\<close> (distance, index) pairs.
\<close>

definition search ::
  "(real list list \<Rightarrow> real list \<Rightarrow> int \<Rightarrow> py_error + (real \<times> int) list) \<Rightarrow>
   vector_database \<Rightarrow> real list \<Rightarrow> int option \<Rightarrow> py_error + (real \<times> int) list" where
  "search faiss_search db query_embedding k =
     (let k' = (case k of None \<Rightarrow> top_k db | Some n \<Rightarrow> if n = 0 then top_k db else n);
          q = (if normalize_L2 db then faiss_normalize_row query_embedding
               else query_embedding)
      in faiss_search (index db) q k')"

definition get_document :: "vector_database \<Rightarrow> int \<Rightarrow> py_error + (string \<times> py_dict)" where
  "get_document db i =
     (if i \<ge> int (length (documents db))
      then Inl (IndexError (''Document index '' @ str_int i @ '' out of range''))
      else case py_index (documents db) i of
             Inl e \<Rightarrow> Inl e
           | Inr d \<Rightarrow> (case py_index (metadata db) i of
                         Inl e \<Rightarrow> Inl e
                       | Inr m \<Rightarrow> Inr (d, m)))"

text \<open>
  The loop of \<open>search_with_metadata\<close> over \<open>enumerate(zip(distances, indices))\<close>;
  \<open>i\<close> is the position of the first remaining pair.
\<close>

fun results_loop ::
  "vector_database \<Rightarrow> nat \<Rightarrow> (real \<times> int) list \<Rightarrow> search_result list \<Rightarrow>
   py_error + search_result list" where
  "results_loop db i [] results = Inr results"
| "results_loop db i ((distance, ix) # rest) results =
     (if ix < int (length (documents db))
      then (case get_document db ix of
              Inl e \<Rightarrow> Inl e
            | Inr (document, meta) \<Rightarrow>
                let similarity = (if index_type db = IndexFlatL2 then 1 - distance
                                  else distance);
                    result = \<lparr>r_index = ix, r_text = document, r_metadata = meta,
                              r_similarity = similarity, r_distance = distance,
                              r_rank = int i + 1\<rparr>
                in if similarity \<ge> similarity_threshold db
                   then results_loop db (Suc i) rest (results @ [result])
                   else results_loop db (Suc i) rest results)
      else results_loop db (Suc i) rest results)"

definition search_with_metadata ::
  "(real list list \<Rightarrow> real list \<Rightarrow> int \<Rightarrow> py_error + (real \<times> int) list) \<Rightarrow>
   vector_database \<Rightarrow> real list \<Rightarrow> int option \<Rightarrow> py_error + search_result list" where
  "search_with_metadata faiss_search db query_embedding k =
     (case search faiss_search db query_embedding k of
        Inl e \<Rightarrow> Inl e
      | Inr hits \<Rightarrow> results_loop db 0 hits [])"

text \<open>
  What \<open>IndexFlat.search\<close> answers while no vector is stored: \<open>k\<close> pairs with the
  label \<open>-1\<close> and the score \<open>-FLT_MAX\<close> (inner product).
\<close>

definition flt_max :: real where
  "flt_max = 340282346638528859811704183484516925440"

definition faiss_search_no_vectors ::
  "real list list \<Rightarrow> real list \<Rightarrow> int \<Rightarrow> py_error + (real \<times> int) list" where
  "faiss_search_no_vectors ix q k = Inr (replicate (nat k) (- flt_max, - 1))"

definition empty_database :: vector_database where
  "empty_database =
     \<lparr>index_type = IndexFlatIP, dimension = 384, top_k = 5,
      similarity_threshold = 7 / 10, normalize_L2 = True,
      index = [], documents = [], metadata = []\<rparr>"

text \<open>
  Two library behaviours used at concrete inputs: an index whose \<open>search\<close> answers the
  given pairs, and \<open>IndexFlat.add\<close> on rows of the index's dimension, which stores
  them after the rows already held.
\<close>

definition faiss_search_returns ::
  "(real \<times> int) list \<Rightarrow> real list list \<Rightarrow> real list \<Rightarrow> int \<Rightarrow> py_error + (real \<times> int) list" where
  "faiss_search_returns hits ix q k = Inr hits"

definition faiss_flat_add :: "real list list \<Rightarrow> real list list \<Rightarrow> py_error + real list list" where
  "faiss_flat_add ix rows = Inr (ix @ rows)"

definition one_document_database :: vector_database where
  "one_document_database =
     \<lparr>index_type = IndexFlatIP, dimension = 2, top_k = 5,
      similarity_threshold = 7 / 10, normalize_L2 = False,
      index = [[1, 0]], documents = [''machine learning basics''],
      metadata = [[''source'' \<mapsto> PyStr ''wiki'']]\<rparr>"

section \<open>Cosine similarity (\<open>src/embedding/embedding_model.py\<close>)\<close>

text \<open>
  \<open>EmbeddingModel.similarity\<close> on two vectors. \<open>np.dot\<close> raises \<open>ValueError\<close> when the
  lengths differ. Dividing a zero vector by its norm gives \<open>nan\<close> in every component
  and no exception, so the result is \<open>nan\<close> then.
\<close>

datatype np_float = Num real | NaN

definition np_dot :: "real list \<Rightarrow> real list \<Rightarrow> real" where
  "np_dot a b = sum_list (map (\<lambda>(x, y). x * y) (zip a b))"

definition similarity :: "real list \<Rightarrow> real list \<Rightarrow> py_error + np_float" where
  "similarity embedding1 embedding2 =
     (if length embedding1 \<noteq> length embedding2
      then Inl (ValueError ''shapes not aligned'')
      else if embedding1 = [] then Inr (Num 0)
      else if l2_norm embedding1 = 0 \<or> l2_norm embedding2 = 0 then Inr NaN
      else
        let embedding1_norm = map (\<lambda>x. x / l2_norm embedding1) embedding1;
            embedding2_norm = map (\<lambda>x. x / l2_norm embedding2) embedding2
        in Inr (Num (np_dot embedding1_norm embedding2_norm)))"

section \<open>The context formatter (\<open>src/rag/prompt_manager.py\<close>)\<close>

text \<open>
  \<open>fmt_2f\<close> renders a float with \<open>:.2f\<close>. The results are the dictionaries that
  \<open>search_with_metadata\<close> builds, so the keys \<open>text\<close>, \<open>metadata\<close> and \<open>similarity\<close> are
  present; \<open>source\<close> and \<open>title\<close> may be missing from the metadata.
\<close>

definition format_result :: "(real \<Rightarrow> string) \<Rightarrow> nat \<Rightarrow> search_result \<Rightarrow> string" where
  "format_result fmt_2f i result =
     (let text = r_text result;
          meta = r_metadata result;
          similarity = r_similarity result;
          source = dict_get meta ''source'' (PyStr ''unknown'');
          title = dict_get meta ''title'' (PyStr (''Document '' @ str_nat (i + 1)))
      in ''[Source: '' @ str_of_value source @ '', Title: '' @ str_of_value title @
         '', Similarity: '' @ fmt_2f similarity @ '']'' @ [CHR 0x0A] @ text @ [CHR 0x0A])"

fun format_loop ::
  "(real \<Rightarrow> string) \<Rightarrow> int \<Rightarrow> nat \<Rightarrow> search_result list \<Rightarrow> int \<Rightarrow> string list \<Rightarrow>
   string list" where
  "format_loop fmt_2f max_length i [] current_length context_parts = context_parts"
| "format_loop fmt_2f max_length i (result # rest) current_length context_parts =
     (let formatted_result = format_result fmt_2f i result
      in if current_length + int (length formatted_result) > max_length
         then context_parts
         else format_loop fmt_2f max_length (Suc i) rest
                (current_length + int (length formatted_result))
                (context_parts @ [formatted_result]))"

text \<open>\<open>max_context_length or self.max_context_length\<close>.\<close>

definition effective_max_length :: "int \<Rightarrow> int option \<Rightarrow> int" where
  "effective_max_length self_max max_context_length =
     (case max_context_length of
        None \<Rightarrow> self_max
      | Some m \<Rightarrow> if m = 0 then self_max else m)"

definition format_context ::
  "(real \<Rightarrow> string) \<Rightarrow> int \<Rightarrow> search_result list \<Rightarrow> int option \<Rightarrow> string" where
  "format_context fmt_2f self_max search_results max_context_length =
     py_join [CHR 0x0A]
       (format_loop fmt_2f (effective_max_length self_max max_context_length) 0
          search_results 0 [])"

text \<open>
  The formatted results in rank order, and the number of characters of a list of
  them: the terms in which the budget is stated.
\<close>

definition formatted_results :: "(real \<Rightarrow> string) \<Rightarrow> nat \<Rightarrow> search_result list \<Rightarrow> string list" where
  "formatted_results fmt_2f i rs = map (\<lambda>(j, r). format_result fmt_2f j r) (enumerate i rs)"

definition total_length :: "string list \<Rightarrow> int" where
  "total_length parts = sum_list (map (\<lambda>p. int (length p)) parts)"

definition similarity_as_text :: "real \<Rightarrow> string" where
  "similarity_as_text x = (if x = 9 / 10 then ''0.90'' else if x = 3 / 4 then ''0.75'' else ''0.00'')"

section \<open>The RAG pipeline (\<open>src/rag/rag_pipeline.py\<close>)\<close>

text \<open>
  The libraries behind the pipeline: the sentence encoder behind \<open>encode_single\<close>, the
  \<open>search\<close> of the FAISS index, the text generation model, and the \<open>:.2f\<close> rendering of
  a float. Each call may raise.
\<close>

record externals =
  ext_encode :: "string \<Rightarrow> py_error + real list"
  ext_search :: "real list list \<Rightarrow> real list \<Rightarrow> int \<Rightarrow> py_error + (real \<times> int) list"
  ext_generator :: "string \<Rightarrow> py_error + string"
  ext_fmt_2f :: "real \<Rightarrow> string"

record rag_pipeline =
  vector_db :: vector_database
  prompt_max_context_length :: int

record source_info =
  s_source :: py_value
  s_title :: py_value
  s_url :: py_value
  s_similarity :: real

text \<open>
  The dictionary \<open>answer_question\<close> returns; the keys \<open>question\<close>, \<open>context_length\<close>
  and \<open>error\<close> are present in some of its three forms only.
\<close>

record answer =
  a_answer :: string
  a_sources :: "source_info list"
  a_confidence :: real
  a_retrieved_documents :: nat
  a_processing_time :: real
  a_question :: "string option"
  a_context_length :: "nat option"
  a_error :: "string option"

text \<open>\<open>EmbeddingPipeline.search\<close>: encode the query, then search the database.\<close>

definition pipeline_search ::
  "externals \<Rightarrow> vector_database \<Rightarrow> string \<Rightarrow> int option \<Rightarrow> py_error + search_result list" where
  "pipeline_search ext db query k =
     (case ext_encode ext query of
        Inl e \<Rightarrow> Inl e
      | Inr query_embedding \<Rightarrow> search_with_metadata (ext_search ext) db query_embedding k)"

text \<open>
  \<open>LLMModel.generate\<close> and \<open>generate_with_context\<close>: the prompt is sent to the model,
  and an echo of the prompt at the start of the output is cut off.
\<close>

definition generate :: "(string \<Rightarrow> py_error + string) \<Rightarrow> string \<Rightarrow> py_error + string" where
  "generate generator prompt =
     (case generator prompt of
        Inl e \<Rightarrow> Inl e
      | Inr generated_text \<Rightarrow>
          Inr (if prefix prompt generated_text
               then py_strip (drop (length prompt) generated_text)
               else generated_text))"

definition context_prompt :: "string \<Rightarrow> string \<Rightarrow> string" where
  "context_prompt context question =
     ''Context: '' @ context @ [CHR 0x0A, CHR 0x0A] @ ''Question: '' @ question @
     [CHR 0x0A, CHR 0x0A] @ ''Answer:''"

definition generate_with_context ::
  "(string \<Rightarrow> py_error + string) \<Rightarrow> string \<Rightarrow> string \<Rightarrow> py_error + string" where
  "generate_with_context generator context question =
     generate generator (context_prompt context question)"

definition source_of :: "search_result \<Rightarrow> source_info" where
  "source_of result =
     (let meta = r_metadata result
      in \<lparr>s_source = dict_get meta ''source'' (PyStr ''unknown''),
          s_title = dict_get meta ''title'' (PyStr ''Unknown''),
          s_url = dict_get meta ''url'' (PyStr []),
          s_similarity = r_similarity result\<rparr>)"

definition no_information_answer :: "real \<Rightarrow> answer" where
  "no_information_answer duration =
     \<lparr>a_answer = ''I couldn't find any relevant information to answer your question.'',
      a_sources = [], a_confidence = 0, a_retrieved_documents = 0,
      a_processing_time = duration, a_question = None, a_context_length = None,
      a_error = None\<rparr>"

definition error_answer :: "py_error \<Rightarrow> real \<Rightarrow> answer" where
  "error_answer e duration =
     \<lparr>a_answer = ''I encountered an error while processing your question. Please try again.'',
      a_sources = [], a_confidence = 0, a_retrieved_documents = 0,
      a_processing_time = duration, a_question = None, a_context_length = None,
      a_error = Some (str_of_error e)\<rparr>"

text \<open>
  The body of the \<open>try\<close> block of \<open>answer_question\<close>. The second component is the list
  of the prompts sent to the language model so far: the model is invoked exactly when
  the list grows. \<open>duration\<close> is the time read by \<open>time.time() - start_time\<close>. The
  calls of the logger and of the clock return normally and leave no trace in the
  answer; they are not part of the model.
\<close>

definition answer_question_try ::
  "externals \<Rightarrow> rag_pipeline \<Rightarrow> string list \<Rightarrow> string \<Rightarrow> int option \<Rightarrow> real \<Rightarrow>
   (py_error + answer) \<times> string list" where
  "answer_question_try ext self llm_calls question k duration =
     (case pipeline_search ext (vector_db self) question k of
        Inl e \<Rightarrow> (Inl e, llm_calls)
      | Inr search_results \<Rightarrow>
          if search_results = [] then (Inr (no_information_answer duration), llm_calls)
          else
            let context = format_context (ext_fmt_2f ext) (prompt_max_context_length self)
                            search_results None;
                llm_calls' = llm_calls @ [context_prompt context question]
            in case generate_with_context (ext_generator ext) context question of
                 Inl e \<Rightarrow> (Inl e, llm_calls')
               | Inr answer \<Rightarrow>
                   let sources = map source_of search_results;
                       avg_similarity = sum_list (map r_similarity search_results)
                                        / real (length search_results)
                   in (Inr \<lparr>a_answer = answer, a_sources = sources,
                             a_confidence = avg_similarity,
                             a_retrieved_documents = length search_results,
                             a_processing_time = duration, a_question = Some question,
                             a_context_length = Some (length context),
                             a_error = None\<rparr>,
                       llm_calls'))"

text \<open>\<open>answer_question\<close>: the \<open>try\<close> block under its \<open>except Exception\<close> handler.\<close>

definition answer_question ::
  "externals \<Rightarrow> rag_pipeline \<Rightarrow> string list \<Rightarrow> string \<Rightarrow> int option \<Rightarrow> real \<Rightarrow>
   (py_error + answer) \<times> string list" where
  "answer_question ext self llm_calls question k duration =
     (case answer_question_try ext self llm_calls question k duration of
        (Inl e, llm_calls') \<Rightarrow> (Inr (error_answer e duration), llm_calls')
      | (Inr response, llm_calls') \<Rightarrow> (Inr response, llm_calls'))"

text \<open>Libraries for the concrete runs below.\<close>

definition encoder_unit :: "string \<Rightarrow> py_error + real list" where
  "encoder_unit text = Inr [1, 0]"

definition generator_out_of_memory :: "string \<Rightarrow> py_error + string" where
  "generator_out_of_memory prompt = Inl (Raised ''CUDA out of memory'')"

definition failing_externals :: externals where
  "failing_externals =
     \<lparr>ext_encode = encoder_unit, ext_search = faiss_search_returns [(9 / 10, 0)],
      ext_generator = generator_out_of_memory, ext_fmt_2f = similarity_as_text\<rparr>"

definition empty_index_externals :: externals where
  "empty_index_externals =
     \<lparr>ext_encode = encoder_unit, ext_search = faiss_search_no_vectors,
      ext_generator = generator_out_of_memory, ext_fmt_2f = similarity_as_text\<rparr>"

definition low_score_externals :: externals where
  "low_score_externals =
     \<lparr>ext_encode = encoder_unit, ext_search = faiss_search_returns [(1 / 2, 0)],
      ext_generator = generator_out_of_memory, ext_fmt_2f = similarity_as_text\<rparr>"

section \<open>Properties of the vector database\<close>

lemma results_loop_threshold:
  "results_loop db i hits acc = Inr rs \<Longrightarrow>
   \<forall>r \<in> set acc. similarity_threshold db \<le> r_similarity r \<Longrightarrow>
   \<forall>r \<in> set rs. similarity_threshold db \<le> r_similarity r"
proof (induction hits arbitrary: i acc)
  case Nil
  then show ?case by simp
next
  case (Cons h rest)
  obtain distance ix where h: "h = (distance, ix)" by (cases h)
  show ?case
  proof (cases "ix < int (length (documents db))")
    case False
    with Cons.prems h have "results_loop db (Suc i) rest acc = Inr rs" by simp
    from Cons.IH[OF this Cons.prems(2)] show ?thesis .
  next
    case True
    show ?thesis
    proof (cases "get_document db ix")
      case (Inl e)
      with Cons.prems(1) h True show ?thesis by simp
    next
      case (Inr dm)
      obtain document meta where dm: "dm = (document, meta)" by (cases dm)
      define sim where "sim = (if index_type db = IndexFlatL2 then 1 - distance else distance)"
      define res where "res = \<lparr>r_index = ix, r_text = document, r_metadata = meta,
                 r_similarity = sim, r_distance = distance, r_rank = int i + 1\<rparr>"
      have step: "results_loop db i (h # rest) acc =
          (if sim \<ge> similarity_threshold db
           then results_loop db (Suc i) rest (acc @ [res])
           else results_loop db (Suc i) rest acc)"
        unfolding h sim_def res_def using True Inr dm by (simp add: Let_def)
      show ?thesis
      proof (cases "sim \<ge> similarity_threshold db")
        case keep: True
        with step Cons.prems(1)
        have run: "results_loop db (Suc i) rest (acc @ [res]) = Inr rs" by simp
        have "r_similarity res = sim" by (simp add: res_def)
        with keep Cons.prems(2)
        have "\<forall>r \<in> set (acc @ [res]). similarity_threshold db \<le> r_similarity r"
          by simp
        from Cons.IH[OF run this] show ?thesis .
      next
        case False
        with step Cons.prems(1)
        have run: "results_loop db (Suc i) rest acc = Inr rs" by simp
        from Cons.IH[OF run Cons.prems(2)] show ?thesis .
      qed
    qed
  qed
qed

text \<open>
  Claim C3. Whatever the index library answers, every result that
  \<open>search_with_metadata\<close> returns has a similarity at or above the configured
  threshold; the filter runs after the scan, so a scan of one or more entries can
  return no result at all.
\<close>

theorem search_with_metadata_threshold:
  "(search_with_metadata faiss_search db q k = Inr rs \<longrightarrow>
      (\<forall>r \<in> set rs. similarity_threshold db \<le> r_similarity r)) \<and>
   (\<exists>hits. search (faiss_search_returns hits) one_document_database [1, 0] (Some 1) = Inr hits
      \<and> hits \<noteq> []
      \<and> search_with_metadata (faiss_search_returns hits) one_document_database [1, 0] (Some 1)
          = Inr [])"
proof (intro conjI impI)
  assume run: "search_with_metadata faiss_search db q k = Inr rs"
  then obtain hits where "results_loop db 0 hits [] = Inr rs"
    by (auto simp: search_with_metadata_def split: sum.splits)
  from results_loop_threshold[OF this] show "\<forall>r \<in> set rs. similarity_threshold db \<le> r_similarity r"
    by simp
next
  have "search (faiss_search_returns [(1 / 2, 0)]) one_document_database [1, 0] (Some 1)
          = Inr [(1 / 2, 0)]"
    by (simp add: search_def faiss_search_returns_def)
  moreover have "search_with_metadata (faiss_search_returns [(1 / 2, 0)]) one_document_database
          [1, 0] (Some 1) = Inr []"
    by (simp add: search_with_metadata_def search_def faiss_search_returns_def
        one_document_database_def get_document_def py_index_def)
  ultimately show "\<exists>hits. search (faiss_search_returns hits) one_document_database [1, 0] (Some 1)
        = Inr hits \<and> hits \<noteq> []
      \<and> search_with_metadata (faiss_search_returns hits) one_document_database [1, 0] (Some 1)
          = Inr []"
    by blast
qed

theorem search_with_metadata_threshold_witness:
  "search_with_metadata (faiss_search_returns [(9 / 10, 0), (1 / 2, 0)]) one_document_database
     [1, 0] (Some 2)
   = Inr [\<lparr>r_index = 0, r_text = ''machine learning basics'',
           r_metadata = [''source'' \<mapsto> PyStr ''wiki''], r_similarity = 9 / 10,
           r_distance = 9 / 10, r_rank = 1\<rparr>] \<and>
   similarity_threshold one_document_database \<le> 9 / 10"
proof -
  have run: "search_with_metadata (faiss_search_returns [(9 / 10, 0), (1 / 2, 0)])
      one_document_database [1, 0] (Some 2)
    = Inr [\<lparr>r_index = 0, r_text = ''machine learning basics'',
           r_metadata = [''source'' \<mapsto> PyStr ''wiki''], r_similarity = 9 / 10,
           r_distance = 9 / 10, r_rank = 1\<rparr>]"
    by (simp add: search_with_metadata_def search_def faiss_search_returns_def
        one_document_database_def get_document_def py_index_def Let_def)
  from search_with_metadata_threshold[of "faiss_search_returns [(9 / 10, 0), (1 / 2, 0)]"
      one_document_database "[1, 0]" "Some 2"
      "[\<lparr>r_index = 0, r_text = ''machine learning basics'',
           r_metadata = [''source'' \<mapsto> PyStr ''wiki''], r_similarity = 9 / 10,
           r_distance = 9 / 10, r_rank = 1\<rparr>]"] run
  have "similarity_threshold one_document_database \<le> 9 / 10" by simp
  with run show ?thesis by simp
qed

text \<open>
  Claim C4. On a database that holds no entry, the library pads the answer with the
  label \<open>-1\<close>. The guard \<open>index < len(self.documents)\<close> lets \<open>-1\<close> through, and
  \<open>get_document(-1)\<close> reads \<open>self.documents[-1]\<close>: the call raises \<open>IndexError\<close> instead of
  returning the empty list of results.
\<close>

theorem search_with_metadata_empty_database_raises:
  "search_with_metadata faiss_search_no_vectors empty_database q None
   = Inl (IndexError ''list index out of range'')"
  by (simp add: search_with_metadata_def search_def faiss_search_no_vectors_def
      empty_database_def get_document_def py_index_def eval_nat_numeral)

text \<open>
  Claim C7. \<open>add_documents\<close> with a number of documents that differs from the number of
  embeddings raises \<open>ValueError\<close> and leaves the index, the documents and the metadata
  as they were; with equal numbers, and rows that the index accepts, the documents and
  their metadata are appended in order.
\<close>

theorem add_documents_count_check:
  "(length docs \<noteq> length embeddings \<longrightarrow>
      (\<exists>msg. fst (add_documents faiss_add db docs embeddings meta) = Some (ValueError msg)) \<and>
      snd (add_documents faiss_add db docs embeddings meta) = db) \<and>
   (length docs = length embeddings \<and>
    faiss_add (index db) (if normalize_L2 db then map faiss_normalize_row embeddings
                          else embeddings) = Inr ix \<longrightarrow>
      fst (add_documents faiss_add db docs embeddings meta) = None \<and>
      index (snd (add_documents faiss_add db docs embeddings meta)) = ix \<and>
      documents (snd (add_documents faiss_add db docs embeddings meta)) = documents db @ docs \<and>
      length (metadata (snd (add_documents faiss_add db docs embeddings (Some docs_meta))))
        = length (metadata db) + (if docs_meta = [] then length docs else length docs_meta) \<and>
      (docs_meta \<noteq> [] \<longrightarrow>
         metadata (snd (add_documents faiss_add db docs embeddings (Some docs_meta)))
           = metadata db @ docs_meta))"
  by (auto simp: add_documents_def Let_def default_metadata_def)

theorem add_documents_count_check_witness:
  "(length [''a'', ''b''] \<noteq> length [[1 :: real, 0]] \<and>
    add_documents faiss_flat_add one_document_database [''a'', ''b''] [[1, 0]] None
      = (Some (ValueError ''Number of documents must match number of embeddings''),
         one_document_database)) \<and>
   (length [''a''] = length [[0 :: real, 1]] \<and>
    fst (add_documents faiss_flat_add one_document_database [''a''] [[0, 1]]
          (Some [[''source'' \<mapsto> PyStr ''news'']])) = None \<and>
    index (snd (add_documents faiss_flat_add one_document_database [''a''] [[0, 1]]
          (Some [[''source'' \<mapsto> PyStr ''news'']]))) = [[1, 0], [0, 1]] \<and>
    documents (snd (add_documents faiss_flat_add one_document_database [''a''] [[0, 1]]
          (Some [[''source'' \<mapsto> PyStr ''news'']]))) = [''machine learning basics'', ''a''] \<and>
    metadata (snd (add_documents faiss_flat_add one_document_database [''a''] [[0, 1]]
          (Some [[''source'' \<mapsto> PyStr ''news'']])))
      = [[''source'' \<mapsto> PyStr ''wiki''], [''source'' \<mapsto> PyStr ''news'']])"
proof -
  have a: "faiss_flat_add (index one_document_database)
      (if normalize_L2 one_document_database then map faiss_normalize_row [[0, 1]]
       else [[0, 1]]) = Inr [[1, 0], [0, 1]]"
    by (simp add: faiss_flat_add_def one_document_database_def)
  have m: "add_documents faiss_flat_add one_document_database [''a'', ''b''] [[1, 0]] None
      = (Some (ValueError ''Number of documents must match number of embeddings''),
         one_document_database)"
    by (simp add: add_documents_def)
  from add_documents_count_check[of "[''a'', ''b'']" "[[1, 0]]" faiss_flat_add
      one_document_database None "[[1, 0], [0, 1]]" "[]"]
    add_documents_count_check[of "[''a'']" "[[0, 1]]" faiss_flat_add
      one_document_database "Some [[''source'' \<mapsto> PyStr ''news'']]" "[[1, 0], [0, 1]]"
      "[[''source'' \<mapsto> PyStr ''news'']]"] a m
  show ?thesis
    by (simp add: one_document_database_def)
qed

section \<open>Properties of the similarity and of the context formatter\<close>

text \<open>
  Claim C9. \<open>similarity\<close> returns the cosine of the angle between the two vectors, and
  for the opposite unit vectors \<open>(1, 0)\<close> and \<open>(-1, 0)\<close> that is \<open>-1\<close>, below the
  interval from 0 to 1 that the docstring and the unit test promise. Every operation
  on this input is exact in floating point.
\<close>

theorem similarity_opposite_vectors:
  "similarity [1, 0] [- 1, 0] = Inr (Num (- 1))"
  by (simp add: similarity_def l2_norm_def np_dot_def)

lemma total_length_append:
  "total_length (xs @ ys) = total_length xs + total_length ys"
  by (simp add: total_length_def)

lemma formatted_results_Cons:
  "formatted_results f i (r # rs) = format_result f i r # formatted_results f (Suc i) rs"
  by (simp add: formatted_results_def)

lemma format_loop_prefix:
  "\<exists>n \<le> length rs.
     format_loop f mx i rs cur parts = parts @ take n (formatted_results f i rs) \<and>
     (0 < n \<longrightarrow> cur + total_length (take n (formatted_results f i rs)) \<le> mx) \<and>
     (n < length rs \<longrightarrow> mx < cur + total_length (take (Suc n) (formatted_results f i rs)))"
proof (induction rs arbitrary: i cur parts)
  case Nil
  show ?case by (simp add: formatted_results_def)
next
  case (Cons r rs)
  let ?fr = "format_result f i r"
  show ?case
  proof (cases "cur + int (length ?fr) > mx")
    case True
    then have "format_loop f mx i (r # rs) cur parts = parts" by (simp add: Let_def)
    moreover have "mx < cur + total_length (take (Suc 0) (formatted_results f i (r # rs)))"
      using True by (simp add: formatted_results_Cons total_length_def)
    ultimately show ?thesis by (intro exI[of _ 0]) simp
  next
    case False
    from Cons.IH[of "Suc i" "cur + int (length ?fr)" "parts @ [?fr]"]
    obtain n where n: "n \<le> length rs"
      and run: "format_loop f mx (Suc i) rs (cur + int (length ?fr)) (parts @ [?fr])
                = (parts @ [?fr]) @ take n (formatted_results f (Suc i) rs)"
      and fit: "0 < n \<longrightarrow> cur + int (length ?fr)
                 + total_length (take n (formatted_results f (Suc i) rs)) \<le> mx"
      and stop: "n < length rs \<longrightarrow> mx < cur + int (length ?fr)
                 + total_length (take (Suc n) (formatted_results f (Suc i) rs))"
      by blast
    have tl: "\<And>m. total_length (take (Suc m) (formatted_results f i (r # rs)))
        = int (length ?fr) + total_length (take m (formatted_results f (Suc i) rs))"
      by (simp add: formatted_results_Cons total_length_def)
    have "format_loop f mx i (r # rs) cur parts
        = parts @ take (Suc n) (formatted_results f i (r # rs))"
      using False run by (simp add: Let_def formatted_results_Cons)
    moreover have "cur + total_length (take (Suc n) (formatted_results f i (r # rs))) \<le> mx"
    proof (cases "n = 0")
      case True
      with False show ?thesis by (simp add: formatted_results_Cons total_length_def)
    next
      case False
      with fit show ?thesis by (simp add: tl add.assoc)
    qed
    moreover have "Suc n < length (r # rs) \<longrightarrow>
        mx < cur + total_length (take (Suc (Suc n)) (formatted_results f i (r # rs)))"
      using stop by (simp add: tl add.assoc)
    ultimately show ?thesis using n by (intro exI[of _ "Suc n"]) simp
  qed
qed

text \<open>
  Claim C8. The context is the join of a prefix of the formatted results, each one
  whole and in rank order: the prefix fits the budget, and when it is not the whole
  list the next formatted result would have exceeded it. So nothing is cut inside a
  result, and a tight budget yields fewer results than were retrieved.
\<close>

theorem format_context_whole_results:
  "\<exists>n \<le> length search_results.
     format_context fmt_2f self_max search_results max_context_length
       = py_join [CHR 0x0A] (take n (formatted_results fmt_2f 0 search_results)) \<and>
     (0 < n \<longrightarrow> total_length (take n (formatted_results fmt_2f 0 search_results))
        \<le> effective_max_length self_max max_context_length) \<and>
     (n < length search_results \<longrightarrow>
        effective_max_length self_max max_context_length
          < total_length (take (Suc n) (formatted_results fmt_2f 0 search_results)))"
proof -
  from format_loop_prefix[of search_results fmt_2f
      "effective_max_length self_max max_context_length" 0 0 "[]"]
  obtain n where "n \<le> length search_results"
    and "format_loop fmt_2f (effective_max_length self_max max_context_length) 0
           search_results 0 [] = take n (formatted_results fmt_2f 0 search_results)"
    and "0 < n \<longrightarrow> total_length (take n (formatted_results fmt_2f 0 search_results))
           \<le> effective_max_length self_max max_context_length"
    and "n < length search_results \<longrightarrow>
           effective_max_length self_max max_context_length
             < total_length (take (Suc n) (formatted_results fmt_2f 0 search_results))"
    by auto
  then show ?thesis
    unfolding format_context_def by (intro exI[of _ n]) simp
qed

theorem format_context_whole_results_witness:
  "format_context similarity_as_text 4000
     [\<lparr>r_index = 0, r_text = ''alpha'', r_metadata = [''source'' \<mapsto> PyStr ''wiki''],
       r_similarity = 9 / 10, r_distance = 9 / 10, r_rank = 1\<rparr>,
      \<lparr>r_index = 1, r_text = ''beta'', r_metadata = Map.empty,
       r_similarity = 3 / 4, r_distance = 3 / 4, r_rank = 2\<rparr>] (Some 100)
   = ''[Source: wiki, Title: Document 1, Similarity: 0.90]'' @ [CHR 0x0A] @ ''alpha'' @ [CHR 0x0A] \<and>
   total_length (take 1 (formatted_results similarity_as_text 0
     [\<lparr>r_index = 0, r_text = ''alpha'', r_metadata = [''source'' \<mapsto> PyStr ''wiki''],
       r_similarity = 9 / 10, r_distance = 9 / 10, r_rank = 1\<rparr>,
      \<lparr>r_index = 1, r_text = ''beta'', r_metadata = Map.empty,
       r_similarity = 3 / 4, r_distance = 3 / 4, r_rank = 2\<rparr>])) = 58 \<and>
   total_length (take 2 (formatted_results similarity_as_text 0
     [\<lparr>r_index = 0, r_text = ''alpha'', r_metadata = [''source'' \<mapsto> PyStr ''wiki''],
       r_similarity = 9 / 10, r_distance = 9 / 10, r_rank = 1\<rparr>,
      \<lparr>r_index = 1, r_text = ''beta'', r_metadata = Map.empty,
       r_similarity = 3 / 4, r_distance = 3 / 4, r_rank = 2\<rparr>])) = 118"
  using format_context_whole_results[of
     "[\<lparr>r_index = 0, r_text = ''alpha'', r_metadata = [''source'' \<mapsto> PyStr ''wiki''],
       r_similarity = 9 / 10, r_distance = 9 / 10, r_rank = 1\<rparr>,
      \<lparr>r_index = 1, r_text = ''beta'', r_metadata = Map.empty,
       r_similarity = 3 / 4, r_distance = 3 / 4, r_rank = 2\<rparr>]"
     similarity_as_text 4000 "Some 100"]
  by (simp add: format_context_def effective_max_length_def format_result_def dict_get_def
      similarity_as_text_def formatted_results_def total_length_def Let_def)

section \<open>Properties of the RAG pipeline\<close>

lemma answer_question_try_encode_raises:
  "ext_encode ext q = Inl e \<Longrightarrow> fst (answer_question_try ext self calls q k d) = Inl e"
  by (simp add: answer_question_try_def pipeline_search_def)

lemma answer_question_try_search_raises:
  "ext_encode ext q = Inr v \<Longrightarrow>
   search_with_metadata (ext_search ext) (vector_db self) v k = Inl e \<Longrightarrow>
   fst (answer_question_try ext self calls q k d) = Inl e"
  by (simp add: answer_question_try_def pipeline_search_def)

lemma answer_question_try_generator_raises:
  "pipeline_search ext (vector_db self) q k = Inr rs \<Longrightarrow> rs \<noteq> [] \<Longrightarrow>
   ext_generator ext (context_prompt
       (format_context (ext_fmt_2f ext) (prompt_max_context_length self) rs None) q) = Inl e \<Longrightarrow>
   fst (answer_question_try ext self calls q k d) = Inl e"
  by (simp add: answer_question_try_def generate_with_context_def generate_def Let_def)

lemma answer_question_handler:
  "fst (answer_question_try ext self calls q k d) = Inl e \<Longrightarrow>
   fst (answer_question ext self calls q k d) = Inr (error_answer e d)"
  by (cases "answer_question_try ext self calls q k d") (simp add: answer_question_def)

lemma answer_question_total:
  "\<exists>a. fst (answer_question ext self calls q k d) = Inr a"
proof (cases "answer_question_try ext self calls q k d")
  case (Pair r calls')
  then show ?thesis by (cases r) (simp_all add: answer_question_def)
qed

text \<open>
  Claim C5. \<open>answer_question\<close> always returns an answer. When the encoder, the index
  search, the fetch of a document or the language model raises, the exception is caught
  and the answer returned is the degraded one: the text "I encountered an error ...",
  confidence 0, no sources, and the exception's message in the \<open>error\<close> field.
\<close>

theorem answer_question_never_raises:
  "(\<exists>a. fst (answer_question ext self calls q k d) = Inr a) \<and>
   (fst (answer_question_try ext self calls q k d) = Inl e \<longrightarrow>
      fst (answer_question ext self calls q k d) = Inr (error_answer e d) \<and>
      a_answer (error_answer e d)
        = ''I encountered an error while processing your question. Please try again.'' \<and>
      a_confidence (error_answer e d) = 0 \<and>
      a_error (error_answer e d) = Some (str_of_error e)) \<and>
   (ext_encode ext q = Inl e \<longrightarrow>
      fst (answer_question ext self calls q k d) = Inr (error_answer e d)) \<and>
   (ext_encode ext q = Inr v \<and>
    search_with_metadata (ext_search ext) (vector_db self) v k = Inl e \<longrightarrow>
      fst (answer_question ext self calls q k d) = Inr (error_answer e d)) \<and>
   (pipeline_search ext (vector_db self) q k = Inr rs \<and> rs \<noteq> [] \<and>
    ext_generator ext (context_prompt
       (format_context (ext_fmt_2f ext) (prompt_max_context_length self) rs None) q) = Inl e \<longrightarrow>
      fst (answer_question ext self calls q k d) = Inr (error_answer e d))"
proof (intro conjI impI)
  show "\<exists>a. fst (answer_question ext self calls q k d) = Inr a"
    by (rule answer_question_total)
next
  assume "fst (answer_question_try ext self calls q k d) = Inl e"
  then show "fst (answer_question ext self calls q k d) = Inr (error_answer e d)"
    by (rule answer_question_handler)
next
  show "a_answer (error_answer e d)
        = ''I encountered an error while processing your question. Please try again.''"
    by (simp add: error_answer_def)
next
  show "a_confidence (error_answer e d) = 0" by (simp add: error_answer_def)
next
  show "a_error (error_answer e d) = Some (str_of_error e)" by (simp add: error_answer_def)
next
  assume "ext_encode ext q = Inl e"
  then show "fst (answer_question ext self calls q k d) = Inr (error_answer e d)"
    by (intro answer_question_handler answer_question_try_encode_raises)
next
  assume "ext_encode ext q = Inr v \<and>
    search_with_metadata (ext_search ext) (vector_db self) v k = Inl e"
  then show "fst (answer_question ext self calls q k d) = Inr (error_answer e d)"
    by (intro answer_question_handler answer_question_try_search_raises[of ext q v]) simp_all
next
  assume "pipeline_search ext (vector_db self) q k = Inr rs \<and> rs \<noteq> [] \<and>
    ext_generator ext (context_prompt
       (format_context (ext_fmt_2f ext) (prompt_max_context_length self) rs None) q) = Inl e"
  then show "fst (answer_question ext self calls q k d) = Inr (error_answer e d)"
    by (intro answer_question_handler answer_question_try_generator_raises[of ext self q k rs])
      simp_all
qed

theorem answer_question_never_raises_witness:
  "fst (answer_question_try failing_externals
         \<lparr>vector_db = one_document_database, prompt_max_context_length = 4000\<rparr> []
         ''What is machine learning?'' None 1)
     = Inl (Raised ''CUDA out of memory'') \<and>
   fst (answer_question failing_externals
         \<lparr>vector_db = one_document_database, prompt_max_context_length = 4000\<rparr> []
         ''What is machine learning?'' None 1)
     = Inr \<lparr>a_answer = ''I encountered an error while processing your question. Please try again.'',
            a_sources = [], a_confidence = 0, a_retrieved_documents = 0,
            a_processing_time = 1, a_question = None, a_context_length = None,
            a_error = Some ''CUDA out of memory''\<rparr>"
proof -
  have raised: "fst (answer_question_try failing_externals
         \<lparr>vector_db = one_document_database, prompt_max_context_length = 4000\<rparr> []
         ''What is machine learning?'' None 1)
     = Inl (Raised ''CUDA out of memory'')"
    by (simp add: answer_question_try_def pipeline_search_def failing_externals_def
        encoder_unit_def search_with_metadata_def search_def faiss_search_returns_def
        one_document_database_def get_document_def py_index_def Let_def
        generate_with_context_def generate_def generator_out_of_memory_def)
  from answer_question_never_raises[of failing_externals
      "\<lparr>vector_db = one_document_database, prompt_max_context_length = 4000\<rparr>" "[]"
      "''What is machine learning?''" None 1 "Raised ''CUDA out of memory''"] raised
  show ?thesis by (simp add: error_answer_def)
qed

lemma results_loop_no_documents:
  "documents db = [] \<Longrightarrow> results_loop db i hits acc = Inr rs \<Longrightarrow> rs = acc"
proof (induction hits arbitrary: i)
  case Nil
  then show ?case by simp
next
  case (Cons h rest)
  obtain distance ix where h: "h = (distance, ix)" by (cases h)
  show ?case
  proof (cases "ix < 0")
    case True
    with Cons.prems h show ?thesis
      by (simp add: get_document_def py_index_def)
  next
    case False
    with Cons.prems h have "results_loop db (Suc i) rest acc = Inr rs" by simp
    from Cons.IH[OF Cons.prems(1) this] show ?thesis .
  qed
qed

lemma pipeline_search_no_documents:
  "documents db = [] \<Longrightarrow> pipeline_search ext db q k = Inr rs \<Longrightarrow> rs = []"
  by (auto simp: pipeline_search_def search_with_metadata_def split: sum.splits
      dest: results_loop_no_documents)

lemma answer_question_short_circuit:
  "pipeline_search ext (vector_db self) q k = Inr [] \<Longrightarrow>
   answer_question ext self calls q k d = (Inr (no_information_answer d), calls)"
  by (simp add: answer_question_def answer_question_try_def)

lemma answer_question_search_fails:
  "pipeline_search ext (vector_db self) q k = Inl e \<Longrightarrow>
   answer_question ext self calls q k d = (Inr (error_answer e d), calls)"
  by (simp add: answer_question_def answer_question_try_def)

text \<open>
  Claim C6. When the retrieval returns no result, and whenever the database holds no
  entry, \<open>answer_question\<close> returns an answer with confidence 0 and
  \<open>retrieved_documents\<close> 0, and the list of prompts sent to the language model is the
  one it started with: the model is not invoked.
\<close>

theorem answer_question_no_results:
  assumes "pipeline_search ext (vector_db self) q k = Inr [] \<or> documents (vector_db self) = []"
  shows "\<exists>a. answer_question ext self calls q k d = (Inr a, calls) \<and>
             a_confidence a = 0 \<and> a_retrieved_documents a = 0"
proof (cases "pipeline_search ext (vector_db self) q k")
  case (Inl e)
  from answer_question_search_fails[OF this] show ?thesis
    by (simp add: error_answer_def)
next
  case (Inr rs)
  with assms have "rs = []"
    by (auto dest: pipeline_search_no_documents)
  with Inr answer_question_short_circuit[of ext self q k calls d] show ?thesis
    by (simp add: no_information_answer_def)
qed

theorem answer_question_no_results_witness:
  "pipeline_search low_score_externals one_document_database ''What is cooking?'' (Some 1)
     = Inr [] \<and>
   answer_question low_score_externals
       \<lparr>vector_db = one_document_database, prompt_max_context_length = 4000\<rparr> []
       ''What is cooking?'' (Some 1) 1
     = (Inr (no_information_answer 1), []) \<and>
   a_confidence (no_information_answer 1) = 0 \<and>
   a_retrieved_documents (no_information_answer 1) = 0 \<and>
   documents empty_database = [] \<and>
   answer_question empty_index_externals
       \<lparr>vector_db = empty_database, prompt_max_context_length = 4000\<rparr> []
       ''What is cooking?'' None 1
     = (Inr (error_answer (IndexError ''list index out of range'') 1), []) \<and>
   a_confidence (error_answer (IndexError ''list index out of range'') 1) = 0 \<and>
   a_retrieved_documents (error_answer (IndexError ''list index out of range'') 1) = 0"
proof -
  have s1: "pipeline_search low_score_externals one_document_database ''What is cooking?''
      (Some 1) = Inr []"
    by (simp add: pipeline_search_def low_score_externals_def encoder_unit_def
        search_with_metadata_def search_def faiss_search_returns_def
        one_document_database_def get_document_def py_index_def Let_def)
  have s2: "pipeline_search empty_index_externals empty_database ''What is cooking?'' None
      = Inl (IndexError ''list index out of range'')"
    by (simp add: pipeline_search_def empty_index_externals_def encoder_unit_def
        search_with_metadata_def search_def faiss_search_no_vectors_def
        empty_database_def get_document_def py_index_def eval_nat_numeral)
  have d: "documents empty_database = []" by (simp add: empty_database_def)
  from answer_question_no_results[of low_score_externals
      "\<lparr>vector_db = one_document_database, prompt_max_context_length = 4000\<rparr>"
      "''What is cooking?''" "Some 1" "[]" 1] s1
  have a1: "\<exists>a. answer_question low_score_externals
       \<lparr>vector_db = one_document_database, prompt_max_context_length = 4000\<rparr> []
       ''What is cooking?'' (Some 1) 1 = (Inr a, []) \<and>
       a_confidence a = 0 \<and> a_retrieved_documents a = 0"
    by simp
  from answer_question_no_results[of empty_index_externals
      "\<lparr>vector_db = empty_database, prompt_max_context_length = 4000\<rparr>"
      "''What is cooking?''" None "[]" 1] d
  have a2: "\<exists>a. answer_question empty_index_externals
       \<lparr>vector_db = empty_database, prompt_max_context_length = 4000\<rparr> []
       ''What is cooking?'' None 1 = (Inr a, []) \<and>
       a_confidence a = 0 \<and> a_retrieved_documents a = 0"
    by simp
  have r1: "answer_question low_score_externals
       \<lparr>vector_db = one_document_database, prompt_max_context_length = 4000\<rparr> []
       ''What is cooking?'' (Some 1) 1 = (Inr (no_information_answer 1), [])"
    using s1 by (simp add: answer_question_def answer_question_try_def)
  have r2: "answer_question empty_index_externals
       \<lparr>vector_db = empty_database, prompt_max_context_length = 4000\<rparr> []
       ''What is cooking?'' None 1
     = (Inr (error_answer (IndexError ''list index out of range'') 1), [])"
    using s2 by (simp add: answer_question_def answer_question_try_def)
  from a1 a2 r1 r2 s1 d show ?thesis by simp
qed

section \<open>Properties of the chunker\<close>

lemma is_space_blank [simp]: "is_space (CHR '' '')"
  by (simp add: is_space_def)

lemma py_strip_trimmed: "trimmed s \<Longrightarrow> py_strip s = s"
proof -
  assume t: "trimmed s"
  then have a: "dropWhile is_space s = s"
    by (cases s) (simp_all add: trimmed_def)
  from t have "rev s \<noteq> []" and "\<not> is_space (hd (rev s))"
    by (simp_all add: trimmed_def hd_rev)
  then have "dropWhile is_space (rev s) = rev s"
    by (cases "rev s") simp_all
  with a show ?thesis by (simp add: py_strip_def)
qed

lemma py_strip_blank: "py_strip (CHR '' '' # s) = py_strip s"
  by (simp add: py_strip_def)

lemma trimmed_py_strip: "py_strip s \<noteq> [] \<Longrightarrow> trimmed (py_strip s)"
proof -
  assume ne: "py_strip s \<noteq> []"
  define y where "y = dropWhile is_space s"
  define x where "x = dropWhile is_space (rev y)"
  have ps: "py_strip s = rev x" by (simp add: py_strip_def x_def y_def)
  with ne have xne: "x \<noteq> []" by simp
  then have ryne: "rev y \<noteq> []" by (auto simp: x_def)
  then have yne: "y \<noteq> []" by simp
  have hx: "\<not> is_space (hd x)" using xne unfolding x_def by (rule hd_dropWhile)
  have hy: "\<not> is_space (hd y)" using yne unfolding y_def by (rule hd_dropWhile)
  have "last x = last (rev y)"
    using xne unfolding x_def
    by (metis append_Nil2 last_appendR takeWhile_dropWhile_id)
  then have lx: "last x = hd y" using yne by (simp add: last_rev)
  show ?thesis
    using xne hx hy lx by (simp add: trimmed_def ps hd_rev last_rev)
qed

lemma py_join_snoc:
  "py_join sep (xs @ [x]) = (if xs = [] then x else py_join sep xs @ sep @ x)"
  by (induction sep xs rule: py_join.induct) simp_all

lemma py_join_Cons:
  "py_join sep (x # xs) = (if xs = [] then x else x @ sep @ py_join sep xs)"
  by (cases xs) simp_all

lemma py_join_eq_Nil:
  "\<forall>w \<in> set ws. w \<noteq> [] \<Longrightarrow> py_join sep ws = [] \<longleftrightarrow> ws = []"
  by (cases ws) (auto simp: py_join_Cons)

lemma trimmed_py_join:
  "ws \<noteq> [] \<Longrightarrow> \<forall>w \<in> set ws. trimmed w \<Longrightarrow> trimmed (py_join '' '' ws)"
proof (induction ws rule: rev_induct)
  case Nil
  then show ?case by simp
next
  case (snoc x xs)
  show ?case
  proof (cases "xs = []")
    case True
    with snoc.prems show ?thesis by simp
  next
    case False
    with snoc have t: "trimmed (py_join '' '' xs)" and tx: "trimmed x" by simp_all
    then show ?thesis
      using False by (simp add: py_join_snoc trimmed_def)
  qed
qed

lemma space_free_trimmed: "space_free w \<Longrightarrow> trimmed w"
  by (cases w) (auto simp: space_free_def trimmed_def)

lemma split_ws_run:
  "\<forall>c \<in> set u. \<not> is_space c \<Longrightarrow> split_ws w (u @ s) = split_ws (w @ u) s"
  by (induction u arbitrary: w) simp_all

lemma split_ws_words:
  "\<forall>c \<in> set acc. \<not> is_space c \<Longrightarrow> \<forall>w \<in> set (split_ws acc s). space_free w"
proof (induction s arbitrary: acc)
  case Nil
  then show ?case by (simp add: space_free_def)
next
  case (Cons c cs)
  show ?case
  proof (cases "is_space c")
    case True
    have "\<forall>w \<in> set (split_ws [] cs). space_free w" by (rule Cons.IH) simp
    with True Cons.prems show ?thesis by (simp add: space_free_def)
  next
    case False
    have "\<forall>w \<in> set (split_ws (acc @ [c]) cs). space_free w"
      by (rule Cons.IH) (use False Cons.prems in auto)
    with False show ?thesis by simp
  qed
qed

lemma py_split_words: "\<forall>w \<in> set (py_split s). space_free w"
  unfolding py_split_def by (rule split_ws_words) simp

lemma py_split_join:
  "\<forall>w \<in> set ws. space_free w \<Longrightarrow> py_split (py_join '' '' ws) = ws"
proof (induction ws)
  case Nil
  then show ?case by (simp add: py_split_def)
next
  case (Cons x xs)
  then have x: "\<forall>c \<in> set x. \<not> is_space c" and xne: "x \<noteq> []"
    by (simp_all add: space_free_def)
  show ?case
  proof (cases "xs = []")
    case True
    have "split_ws [] (x @ []) = split_ws ([] @ x) []" using x by (rule split_ws_run)
    with True xne show ?thesis by (simp add: py_split_def)
  next
    case False
    have "split_ws [] (x @ CHR '' '' # py_join '' '' xs)
        = split_ws ([] @ x) (CHR '' '' # py_join '' '' xs)"
      using x by (rule split_ws_run)
    also have "\<dots> = x # split_ws [] (py_join '' '' xs)" using xne by simp
    finally show ?thesis
      using False Cons by (simp add: py_join_Cons py_split_def)
  qed
qed

lemma py_split_blank: "py_split (CHR '' '' # s) = py_split s"
  by (simp add: py_split_def)

lemma sentences_length_le_join:
  "sentences_length g \<le> int (length (py_join sep g))"
  by (induction sep g rule: py_join.induct) (simp_all add: sentences_length_def)

lemma trimmed_nonempty: "trimmed s \<Longrightarrow> s \<noteq> []"
  by (simp add: trimmed_def)

lemma sentence_loop_groups:
  assumes "\<forall>s \<in> set rest. trimmed s" and "\<forall>s \<in> set g. trimmed s"
    and "[] \<notin> set dg" and "\<forall>h \<in> set dg. run_within mx h" and "run_within mx g"
  shows "\<exists>dg' g'.
      sentence_loop mn mx rest (map (py_join '' '') (filter (keeps mn) dg)) (py_join '' '' g)
        = (map (py_join '' '') (filter (keeps mn) dg'), py_join '' '' g') \<and>
      concat dg' @ g' = concat dg @ g @ rest \<and> [] \<notin> set dg' \<and>
      (\<forall>h \<in> set dg'. run_within mx h) \<and> run_within mx g' \<and> (\<forall>s \<in> set g'. trimmed s)"
  using assms
proof (induction rest arbitrary: dg g)
  case Nil
  then show ?case by (intro exI[of _ dg] exI[of _ g]) simp
next
  case (Cons s rest)
  let ?cur = "py_join '' '' g"
  have gne: "\<forall>w \<in> set g. w \<noteq> []" using Cons.prems(2) by (auto simp: trimmed_def)
  have cur_nil: "?cur = [] \<longleftrightarrow> g = []" using gne by (rule py_join_eq_Nil)
  have ts: "trimmed s" and trest: "\<forall>s \<in> set rest. trimmed s" using Cons.prems(1) by simp_all
  show ?case
  proof (cases "int (length ?cur) + int (length s) > mx \<and> ?cur \<noteq> []")
    case True
    then have g: "g \<noteq> []" using cur_nil by simp
    then have strip: "py_strip ?cur = ?cur"
      using Cons.prems(2) by (intro py_strip_trimmed trimmed_py_join)
    have chunks: "(if int (length ?cur) \<ge> mn
           then map (py_join '' '') (filter (keeps mn) dg) @ [py_strip ?cur]
           else map (py_join '' '') (filter (keeps mn) dg))
        = map (py_join '' '') (filter (keeps mn) (dg @ [g]))"
      by (simp add: strip keeps_def)
    have step: "sentence_loop mn mx (s # rest) (map (py_join '' '') (filter (keeps mn) dg)) ?cur
        = sentence_loop mn mx rest (map (py_join '' '') (filter (keeps mn) (dg @ [g])))
            (py_join '' '' [s])"
      using True chunks by simp
    have "\<exists>dg' g'.
      sentence_loop mn mx rest (map (py_join '' '') (filter (keeps mn) (dg @ [g])))
          (py_join '' '' [s])
        = (map (py_join '' '') (filter (keeps mn) dg'), py_join '' '' g') \<and>
      concat dg' @ g' = concat (dg @ [g]) @ [s] @ rest \<and> [] \<notin> set dg' \<and>
      (\<forall>h \<in> set dg'. run_within mx h) \<and> run_within mx g' \<and> (\<forall>s \<in> set g'. trimmed s)"
      using trest ts g Cons.prems(3,4,5)
      by (intro Cons.IH) (simp_all add: run_within_def)
    then show ?thesis unfolding step by simp
  next
    case False
    have cur': "(if ?cur \<noteq> [] then ?cur @ '' '' @ s else s) = py_join '' '' (g @ [s])"
      using cur_nil by (simp add: py_join_snoc)
    have step: "sentence_loop mn mx (s # rest) (map (py_join '' '') (filter (keeps mn) dg)) ?cur
        = sentence_loop mn mx rest (map (py_join '' '') (filter (keeps mn) dg))
            (py_join '' '' (g @ [s]))"
      using False cur' by auto
    have bound: "run_within mx (g @ [s])"
    proof (cases "g = []")
      case True
      then show ?thesis by (simp add: run_within_def)
    next
      case ne: False
      with False cur_nil have "int (length ?cur) + int (length s) \<le> mx" by simp
      moreover have "sentences_length g \<le> int (length ?cur)"
        by (rule sentences_length_le_join)
      ultimately show ?thesis
        by (simp add: run_within_def sentences_length_def)
    qed
    have "\<exists>dg' g'.
      sentence_loop mn mx rest (map (py_join '' '') (filter (keeps mn) dg))
          (py_join '' '' (g @ [s]))
        = (map (py_join '' '') (filter (keeps mn) dg'), py_join '' '' g') \<and>
      concat dg' @ g' = concat dg @ (g @ [s]) @ rest \<and> [] \<notin> set dg' \<and>
      (\<forall>h \<in> set dg'. run_within mx h) \<and> run_within mx g' \<and> (\<forall>s \<in> set g'. trimmed s)"
      using trest ts Cons.prems(2,3,4) bound
      by (intro Cons.IH) simp_all
    then show ?thesis unfolding step by simp
  qed
qed

lemma sentence_chunks_groups:
  assumes "\<forall>s \<in> set sentences. trimmed s"
  shows "\<exists>groups. concat groups = sentences \<and> [] \<notin> set groups \<and>
      sentence_chunks sentences mn mx = map (py_join '' '') (filter (keeps mn) groups) \<and>
      (\<forall>g \<in> set groups. run_within mx g)"
proof -
  from sentence_loop_groups[of sentences "[]" "[]" mx mn] assms
  obtain dg g where loop: "sentence_loop mn mx sentences [] []
        = (map (py_join '' '') (filter (keeps mn) dg), py_join '' '' g)"
    and cat: "concat dg @ g = sentences" and ne: "[] \<notin> set dg"
    and rw: "\<forall>h \<in> set dg. run_within mx h" "run_within mx g"
    and tg: "\<forall>s \<in> set g. trimmed s"
    by (auto simp: run_within_def)
  have gne: "\<forall>w \<in> set g. w \<noteq> []" using tg by (auto simp: trimmed_def)
  have cur_nil: "py_join '' '' g = [] \<longleftrightarrow> g = []" using gne by (rule py_join_eq_Nil)
  show ?thesis
  proof (cases "g = []")
    case True
    with loop have "sentence_chunks sentences mn mx
        = map (py_join '' '') (filter (keeps mn) dg)"
      by (simp add: sentence_chunks_def)
    with cat ne rw True show ?thesis by (intro exI[of _ dg]) simp
  next
    case False
    then have strip: "py_strip (py_join '' '' g) = py_join '' '' g"
      using tg by (intro py_strip_trimmed trimmed_py_join)
    from loop False cur_nil have "sentence_chunks sentences mn mx
        = map (py_join '' '') (filter (keeps mn) (dg @ [g]))"
      by (simp add: sentence_chunks_def strip keeps_def)
    with cat ne rw False show ?thesis by (intro exI[of _ "dg @ [g]"]) simp
  qed
qed

lemma sentences_of_trimmed: "\<forall>s \<in> set (sentences_of text). trimmed s"
  by (auto simp: sentences_of_def intro: trimmed_py_strip)

lemma holds_words_split: "holds_words cur ws \<Longrightarrow> py_split cur = ws"
  by (auto simp: holds_words_def py_split_join py_split_blank) (simp add: py_split_def)

lemma holds_words_nil: "holds_words cur ws \<Longrightarrow> cur = [] \<longleftrightarrow> ws = []"
  by (auto simp: holds_words_def space_free_def py_join_eq_Nil)

lemma holds_words_strip:
  "holds_words cur ws \<Longrightarrow> ws \<noteq> [] \<Longrightarrow> py_strip cur = py_join '' '' ws"
proof -
  assume h: "holds_words cur ws" and ne: "ws \<noteq> []"
  then have "\<forall>w \<in> set ws. trimmed w" by (auto simp: holds_words_def space_free_trimmed)
  with ne have "py_strip (py_join '' '' ws) = py_join '' '' ws"
    by (intro py_strip_trimmed trimmed_py_join)
  with h ne show ?thesis by (auto simp: holds_words_def py_strip_blank)
qed

lemma holds_words_free: "holds_words cur ws \<Longrightarrow> \<forall>w \<in> set ws. space_free w"
  by (auto simp: holds_words_def)

lemma holds_words_add:
  assumes "holds_words cur ws" and "space_free word"
  shows "holds_words (if cur \<noteq> [] then cur @ '' '' @ word else word) (ws @ [word])"
proof (cases "ws = []")
  case True
  with assms show ?thesis by (auto simp: holds_words_def)
next
  case False
  from assms(1) False have f: "\<forall>w \<in> set ws. space_free w"
    and c: "cur = py_join '' '' ws \<or> cur = CHR '' '' # py_join '' '' ws"
    by (auto simp: holds_words_def)
  from f have "\<forall>w \<in> set ws. w \<noteq> []" by (simp add: space_free_def)
  then have "py_join '' '' ws \<noteq> []" using False by (simp add: py_join_eq_Nil)
  with c False f assms(2) show ?thesis
    by (auto simp: holds_words_def py_join_snoc)
qed

lemma holds_words_overlap:
  assumes "\<forall>w \<in> set ov. space_free w" and "space_free word"
  shows "holds_words (py_join '' '' ov @ '' '' @ word) (ov @ [word])"
  using assms by (cases "ov = []") (auto simp: holds_words_def py_join_snoc)

lemma set_py_slice_from: "set (py_slice_from n xs) \<subseteq> set xs"
  by (auto simp: py_slice_from_def dest: in_set_dropD)

lemma word_loop_cover:
  assumes "\<forall>w \<in> set rest. space_free w" and "holds_words cur ws" and "suffix cn ws"
    and "list_all2 ends_with news chunks"
  shows "\<exists>news' cn' chunks' cur' ws'.
      word_loop cs co rest chunks cur = (chunks', cur') \<and> holds_words cur' ws' \<and>
      suffix cn' ws' \<and> list_all2 ends_with news' chunks' \<and>
      concat news' @ cn' = concat news @ cn @ rest"
  using assms
proof (induction rest arbitrary: cur ws cn news chunks)
  case Nil
  then show ?case by auto
next
  case (Cons word rest)
  have w: "space_free word" and r: "\<forall>w \<in> set rest. space_free w"
    using Cons.prems(1) by simp_all
  have split: "py_split cur = ws" using Cons.prems(2) by (rule holds_words_split)
  show ?case
  proof (cases "int (length cur) + int (length word) + 1 > cs \<and> cur \<noteq> []")
    case True
    then have ne: "ws \<noteq> []" using holds_words_nil[OF Cons.prems(2)] by simp
    have strip: "py_strip cur = py_join '' '' ws"
      using Cons.prems(2) ne by (rule holds_words_strip)
    define ov where "ov = py_slice_from ((- co) div 10) ws"
    have ovf: "\<forall>w \<in> set ov. space_free w"
      using holds_words_free[OF Cons.prems(2)] set_py_slice_from[of "(- co) div 10" ws]
      unfolding ov_def by blast
    have step: "word_loop cs co (word # rest) chunks cur
        = word_loop cs co rest (chunks @ [py_join '' '' ws]) (py_join '' '' ov @ '' '' @ word)"
      using True by (simp add: Let_def split strip ov_def)
    have e: "ends_with cn (py_join '' '' ws)"
      using Cons.prems(3) holds_words_free[OF Cons.prems(2)]
      by (simp add: ends_with_def py_split_join)
    have "\<exists>news' cn' chunks' cur' ws'.
      word_loop cs co rest (chunks @ [py_join '' '' ws]) (py_join '' '' ov @ '' '' @ word)
        = (chunks', cur') \<and> holds_words cur' ws' \<and>
      suffix cn' ws' \<and> list_all2 ends_with news' chunks' \<and>
      concat news' @ cn' = concat (news @ [cn]) @ [word] @ rest"
    proof (rule Cons.IH[OF r])
      show "holds_words (py_join '' '' ov @ '' '' @ word) (ov @ [word])"
        using ovf w by (rule holds_words_overlap)
      show "suffix [word] (ov @ [word])" by (simp add: suffix_def)
      show "list_all2 ends_with (news @ [cn]) (chunks @ [py_join '' '' ws])"
        using Cons.prems(4) e by (simp add: list_all2_appendI)
    qed
    then show ?thesis unfolding step by simp
  next
    case False
    have step: "word_loop cs co (word # rest) chunks cur
        = word_loop cs co rest chunks (if cur \<noteq> [] then cur @ '' '' @ word else word)"
      using False by auto
    have "\<exists>news' cn' chunks' cur' ws'.
      word_loop cs co rest chunks (if cur \<noteq> [] then cur @ '' '' @ word else word)
        = (chunks', cur') \<and> holds_words cur' ws' \<and>
      suffix cn' ws' \<and> list_all2 ends_with news' chunks' \<and>
      concat news' @ cn' = concat news @ (cn @ [word]) @ rest"
    proof (rule Cons.IH[OF r])
      show "holds_words (if cur \<noteq> [] then cur @ '' '' @ word else word) (ws @ [word])"
        using Cons.prems(2) w by (rule holds_words_add)
      show "suffix (cn @ [word]) (ws @ [word])" using Cons.prems(3) by simp
      show "list_all2 ends_with news chunks" by (rule Cons.prems(4))
    qed
    then show ?thesis unfolding step by simp
  qed
qed

lemma word_chunks_cover:
  assumes "\<forall>w \<in> set words. space_free w"
  shows "\<exists>news. concat news = words \<and> list_all2 ends_with news (word_chunks words cs co)"
proof -
  have h0: "holds_words [] []" by (simp add: holds_words_def)
  have s0: "suffix ([] :: string list) []" by simp
  have a0: "list_all2 ends_with [] []" by simp
  from word_loop_cover[OF assms h0 s0 a0, of cs co]
  obtain news cn chunks cur ws where loop: "word_loop cs co words [] [] = (chunks, cur)"
    and h: "holds_words cur ws" and suf: "suffix cn ws"
    and all: "list_all2 ends_with news chunks" and cat: "concat news @ cn = words"
    by auto
  show ?thesis
  proof (cases "cur = []")
    case True
    with h suf have "cn = []" using holds_words_nil[OF h] by simp
    with loop True all cat show ?thesis
      by (intro exI[of _ news]) (simp add: word_chunks_def)
  next
    case False
    then have ne: "ws \<noteq> []" using holds_words_nil[OF h] by simp
    have "ends_with cn (py_strip cur)"
      using suf holds_words_free[OF h]
      by (simp add: ends_with_def holds_words_strip[OF h ne] py_split_join)
    with loop False all cat show ?thesis
      by (intro exI[of _ "news @ [cn]"]) (simp add: word_chunks_def list_all2_appendI)
  qed
qed

text \<open>
  Claim C2. For the text \<open>Short text\<close> and \<open>min_chunk_size = 50\<close>, the input of the
  repository's own test, the sentence pass keeps nothing, and the word pass that runs
  when at most one chunk was found returns the whole text as one chunk: the result is
  not empty, where the claim and the test (\<open>assert len(chunks) == 0\<close>) say it is.
\<close>

theorem chunk_text_short_text:
  "chunk_text unescape_plain ''Short text'' 1000 200 50 2000 = [''Short text'']"
  by code_simp

text \<open>
  Claim C1, as stated, fails: with \<open>min_chunk_size = 3\<close> and \<open>max_chunk_size = 5\<close> the
  first of two chunks has six characters, and the sentence \<open>bb\<close> is in no chunk.
\<close>

theorem chunk_text_bound_counterexample:
  "chunk_text unescape_plain ''aaaaaa. bb. cccccc'' 1000 200 3 5 = [''aaaaaa'', ''cccccc''] \<and>
   \<not> list_all (within_max 5)
         (butlast (chunk_text unescape_plain ''aaaaaa. bb. cccccc'' 1000 200 3 5)) \<and>
   sentences_of (clean_text unescape_plain ''aaaaaa. bb. cccccc'' True True True True)
     = [''aaaaaa'', ''bb'', ''cccccc'']"
  by code_simp

lemma chunk_text_nonempty:
  "text \<noteq> [] \<Longrightarrow>
   chunk_text unescape text cs co mn mx =
     (if length (sentence_chunks
          (sentences_of (clean_text unescape text True True True True)) mn mx) \<le> 1
      then word_chunks (py_split (clean_text unescape text True True True True)) cs co
      else sentence_chunks (sentences_of (clean_text unescape text True True True True)) mn mx)"
  by (simp add: chunk_text_def Let_def)

text \<open>
  Claim C1, amended. For a non-empty text, the sentences of the cleaned text split, in
  order, into consecutive non-empty groups; in a group of two or more sentences the
  lengths of the sentences add up to at most \<open>max_chunk_size\<close>, and a single sentence is
  never split. When two or more groups reach \<open>min_chunk_size\<close>, the result is the joins
  of exactly those groups, in order. Otherwise the result is that of the word pass, and
  its chunks, each without the overlap words in front, concatenate to the words of the
  cleaned text.
\<close>

theorem chunk_text_structure:
  assumes "text \<noteq> []"
  shows "\<exists>groups news.
     concat groups = sentences_of (clean_text unescape text True True True True) \<and>
     [] \<notin> set groups \<and>
     (\<forall>g \<in> set groups. run_within max_chunk_size g) \<and>
     concat news = py_split (clean_text unescape text True True True True) \<and>
     (if length (filter (keeps min_chunk_size) groups) \<le> 1
      then list_all2 ends_with news
             (chunk_text unescape text chunk_size chunk_overlap min_chunk_size max_chunk_size)
      else chunk_text unescape text chunk_size chunk_overlap min_chunk_size max_chunk_size
             = map (py_join '' '') (filter (keeps min_chunk_size) groups))"
proof -
  let ?cleaned = "clean_text unescape text True True True True"
  from sentence_chunks_groups[OF sentences_of_trimmed, of ?cleaned min_chunk_size max_chunk_size]
  obtain groups where g: "concat groups = sentences_of ?cleaned" "[] \<notin> set groups"
    and sc: "sentence_chunks (sentences_of ?cleaned) min_chunk_size max_chunk_size
          = map (py_join '' '') (filter (keeps min_chunk_size) groups)"
    and rw: "\<forall>g \<in> set groups. run_within max_chunk_size g"
    by blast
  from word_chunks_cover[OF py_split_words, of ?cleaned chunk_size chunk_overlap]
  obtain news where n: "concat news = py_split ?cleaned"
    and wc: "list_all2 ends_with news (word_chunks (py_split ?cleaned) chunk_size chunk_overlap)"
    by blast
  have "if length (filter (keeps min_chunk_size) groups) \<le> 1
      then list_all2 ends_with news
             (chunk_text unescape text chunk_size chunk_overlap min_chunk_size max_chunk_size)
      else chunk_text unescape text chunk_size chunk_overlap min_chunk_size max_chunk_size
             = map (py_join '' '') (filter (keeps min_chunk_size) groups)"
    using wc by (simp add: chunk_text_nonempty[OF assms] sc)
  with g rw n show ?thesis by blast
qed

theorem chunk_text_structure_witness:
  "''Hello world. This is it! Really? Yes.'' \<noteq> [] \<and>
   chunk_text unescape_plain ''Hello world. This is it! Really? Yes.'' 1000 200 5 12
     = [''Hello world'', ''This is it'', ''Really Yes''] \<and>
   (\<exists>groups news.
     concat groups = sentences_of (clean_text unescape_plain
        ''Hello world. This is it! Really? Yes.'' True True True True) \<and>
     [] \<notin> set groups \<and>
     (\<forall>g \<in> set groups. run_within 12 g) \<and>
     concat news = py_split (clean_text unescape_plain
        ''Hello world. This is it! Really? Yes.'' True True True True) \<and>
     (if length (filter (keeps 5) groups) \<le> 1
      then list_all2 ends_with news
             (chunk_text unescape_plain ''Hello world. This is it! Really? Yes.'' 1000 200 5 12)
      else chunk_text unescape_plain ''Hello world. This is it! Really? Yes.'' 1000 200 5 12
             = map (py_join '' '') (filter (keeps 5) groups)))"
proof -
  have ne: "''Hello world. This is it! Really? Yes.'' \<noteq> []" by simp
  have run: "chunk_text unescape_plain ''Hello world. This is it! Really? Yes.'' 1000 200 5 12
     = [''Hello world'', ''This is it'', ''Really Yes'']"
    by code_simp
  from ne run chunk_text_structure[OF ne, of unescape_plain 12 5 1000 200]
  show ?thesis by (intro conjI)
qed

section \<open>Tags, addresses and the chunks\<close>

lemma tag_run_append:
  "tag_run q (a @ b) = (case tag_run q a of None \<Rightarrow> None | Some q' \<Rightarrow> tag_run q' b)"
  by (induction a arbitrary: q) (auto split: option.splits)

lemma tag_run_appendD:
  "tag_run q (a @ b) \<noteq> None \<Longrightarrow> \<exists>q'. tag_run q a = Some q' \<and> tag_run q' b \<noteq> None"
  by (simp add: tag_run_append split: option.splits)

lemma tag_run_no_gt: "CHR ''>'' \<notin> set s \<Longrightarrow> tag_run q s \<noteq> None"
proof (induction s arbitrary: q)
  case Nil
  then show ?case by simp
next
  case (Cons c cs)
  then show ?case by (cases q) auto
qed

lemma weaker_refl: "weaker q q"
  by (cases q) simp_all

lemma weaker_after_other: "weaker q (after_other q)"
  by (cases q) simp_all

lemma after_other_mono: "weaker q q' \<Longrightarrow> weaker (after_other q) (after_other q')"
  by (cases q; cases q') simp_all

lemma tag_step_mono:
  "weaker q q' \<Longrightarrow> tag_step q' c = Some r' \<Longrightarrow> \<exists>r. tag_step q c = Some r \<and> weaker r r'"
  by (cases q; cases q') (auto split: if_splits)

lemma tag_run_mono:
  "weaker q q' \<Longrightarrow> tag_run q' s = Some r' \<Longrightarrow> \<exists>r. tag_run q s = Some r \<and> weaker r r'"
proof (induction s arbitrary: q q')
  case Nil
  then show ?case by simp
next
  case (Cons c cs)
  from Cons.prems(2) obtain p' where p': "tag_step q' c = Some p'" and run: "tag_run p' cs = Some r'"
    by (auto split: option.splits)
  from tag_step_mono[OF Cons.prems(1) p'] obtain p where p: "tag_step q c = Some p" "weaker p p'"
    by blast
  from Cons.IH[OF p(2) run] p(1) show ?case by simp
qed

lemma tag_run_weaker:
  "weaker q q' \<Longrightarrow> tag_run q' s \<noteq> None \<Longrightarrow> tag_run q s \<noteq> None"
  using tag_run_mono by fastforce

lemma tag_step_other: "other_char c \<Longrightarrow> tag_step q c = Some (after_other q)"
  by (cases q) (simp_all add: other_char_def)

lemma after_other_idem: "after_other (after_other q) = after_other q"
  by (cases q) simp_all

lemma tag_run_other:
  "s \<noteq> [] \<Longrightarrow> \<forall>c \<in> set s. other_char c \<Longrightarrow> tag_run q s = Some (after_other q)"
proof (induction s arbitrary: q)
  case Nil
  then show ?case by simp
next
  case (Cons c cs)
  show ?case
  proof (cases "cs = []")
    case True
    with Cons.prems show ?thesis by (simp add: tag_step_other)
  next
    case False
    with Cons show ?thesis by (simp add: tag_step_other after_other_idem)
  qed
qed

lemma tag_run_other_weaker:
  "\<forall>c \<in> set s. other_char c \<Longrightarrow> \<exists>q'. tag_run q s = Some q' \<and> weaker q q'"
  by (cases "s = []") (auto simp: weaker_refl tag_run_other weaker_after_other)

lemma tag_run_Open: "tag_run Open s = Some q' \<Longrightarrow> q' = Open"
  by (induction s) (auto split: if_splits)

lemma tag_run_forward:
  "s \<noteq> [] \<Longrightarrow> hd s \<noteq> CHR ''>'' \<Longrightarrow> tag_run q s = Some q' \<Longrightarrow> weaker q q'"
proof (cases s)
  case Nil
  assume "s \<noteq> []"
  with Nil show ?thesis by simp
next
  case (Cons c cs)
  assume "hd s \<noteq> CHR ''>''" and "tag_run q s = Some q'"
  with Cons show ?thesis
    by (cases q) (auto dest: tag_run_Open)
qed

lemma is_space_other: "is_space c \<Longrightarrow> other_char c"
  by (auto simp: is_space_def other_char_def)

lemma is_terminator_other: "is_terminator c \<Longrightarrow> other_char c"
  by (auto simp: is_terminator_def other_char_def)

lemma tag_run_Open_gt:
  "CHR ''>'' \<notin> set rs \<Longrightarrow> tag_run Open (rs @ CHR ''>'' # ss) = None"
  by (induction rs) auto

lemma tag_run_tag:
  assumes "run \<noteq> []" and "CHR ''>'' \<notin> set run"
  shows "tag_run q (CHR ''<'' # run @ CHR ''>'' # ss) = None"
proof -
  from assms obtain r rs where run: "run = r # rs" and r: "r \<noteq> CHR ''>''"
    and rs: "CHR ''>'' \<notin> set rs"
    by (cases run) auto
  have "tag_run Open (rs @ CHR ''>'' # ss) = None" using rs by (rule tag_run_Open_gt)
  then show ?thesis using r by (cases q) (simp_all add: run)
qed

lemma is_tag_shape:
  assumes "is_tag t"
  shows "\<exists>run. t = CHR ''<'' # run @ [CHR ''>''] \<and> run \<noteq> [] \<and> CHR ''>'' \<notin> set run"
proof -
  from assms obtain cs where t: "t = CHR ''<'' # cs"
    by (cases t) (auto simp: is_tag_def match_tag_def split: if_splits)
  define run where "run = takeWhile (\<lambda>x. x \<noteq> CHR ''>'') cs"
  from assms t have ne: "run \<noteq> []" and lt: "length run < length cs"
    and len: "length run + 2 = length t"
    by (auto simp: is_tag_def match_tag_def run_def Let_def split: if_splits)
  have cs: "cs = run @ dropWhile (\<lambda>x. x \<noteq> CHR ''>'') cs"
    by (simp add: run_def)
  define rest where "rest = dropWhile (\<lambda>x. x \<noteq> CHR ''>'') cs"
  from cs have cs': "cs = run @ rest" by (simp add: rest_def)
  from len t cs' have "length rest = 1" by simp
  then obtain x where rest: "rest = [x]" by (cases rest) auto
  have "rest \<noteq> []" using rest by simp
  then have "\<not> (hd rest \<noteq> CHR ''>'')" unfolding rest_def by (rule hd_dropWhile)
  with rest have x: "x = CHR ''>''" by simp
  have "CHR ''>'' \<notin> set run"
    unfolding run_def by (auto dest: set_takeWhileD)
  with t cs' rest x ne show ?thesis by auto
qed

lemma tag_run_no_tag:
  assumes "tag_run Clear s \<noteq> None"
  shows "\<not> (\<exists>t. is_tag t \<and> sublist t s)"
proof
  assume "\<exists>t. is_tag t \<and> sublist t s"
  then obtain t ps ss where t: "is_tag t" and s: "s = ps @ t @ ss"
    by (auto simp: sublist_def)
  from is_tag_shape[OF t] obtain run where run: "t = CHR ''<'' # run @ [CHR ''>'']"
    "run \<noteq> []" "CHR ''>'' \<notin> set run"
    by blast
  from assms s have "tag_run Clear (ps @ t @ ss) \<noteq> None" by simp
  from tag_run_appendD[OF this] obtain q where "tag_run q (t @ ss) \<noteq> None"
    by blast
  moreover have "tag_run q (t @ ss) = None"
    using tag_run_tag[OF run(2,3), of q ss] by (simp add: run(1))
  ultimately show False by simp
qed

lemma set_re_sub_delete: "set (re_sub_delete m prev s) \<subseteq> set s"
proof (induction m prev s rule: re_sub_delete.induct)
  case (1 m prev)
  then show ?case by simp
next
  case (2 m prev c cs)
  show ?case
  proof (cases "m prev (c # cs)")
    case None
    with 2 show ?thesis by auto
  next
    case (Some n)
    show ?thesis
    proof (cases "0 < n \<and> n \<le> length (c # cs)")
      case True
      with 2(2)[OF Some] Some have "set (re_sub_delete m prev (c # cs)) \<subseteq> set (drop n (c # cs))"
        by simp
      also have "\<dots> \<subseteq> set (c # cs)" by (rule set_drop_subset)
      finally show ?thesis .
    next
      case False
      with 2(3)[OF Some] Some show ?thesis by auto
    qed
  qed
qed

lemma match_tag_Some:
  "match_tag prev s = Some n \<Longrightarrow> 0 < n \<and> n \<le> length s \<and> hd s = CHR ''<''"
  by (cases s) (auto simp: match_tag_def Let_def split: if_splits)

lemma match_tag_None:
  "match_tag prev (CHR ''<'' # cs) = None \<Longrightarrow>
   cs = [] \<or> hd cs = CHR ''>'' \<or> CHR ''>'' \<notin> set cs"
proof -
  assume a: "match_tag prev (CHR ''<'' # cs) = None"
  define run where "run = takeWhile (\<lambda>x. x \<noteq> CHR ''>'') cs"
  from a have d: "run = [] \<or> length cs \<le> length run"
    by (auto simp: match_tag_def run_def Let_def split: if_splits)
  show ?thesis
  proof (cases "run = []")
    case True
    then show ?thesis unfolding run_def by (cases cs) (auto split: if_splits)
  next
    case False
    with d have "length cs \<le> length run" by simp
    moreover have "length run \<le> length cs" unfolding run_def by (rule length_takeWhile_le)
    ultimately have eq: "length run = length cs" by simp
    have "length (takeWhile (\<lambda>x. x \<noteq> CHR ''>'') cs)
          + length (dropWhile (\<lambda>x. x \<noteq> CHR ''>'') cs) = length cs"
      by (simp only: length_append[symmetric] takeWhile_dropWhile_id)
    with eq have "length (dropWhile (\<lambda>x. x \<noteq> CHR ''>'') cs) = 0"
      unfolding run_def by linarith
    then have "dropWhile (\<lambda>x. x \<noteq> CHR ''>'') cs = []"
      by (simp only: length_0_conv)
    then have "\<forall>x \<in> set cs. x \<noteq> CHR ''>''" by (simp add: dropWhile_eq_Nil_conv)
    then show ?thesis by auto
  qed
qed

lemma re_sub_delete_tags_safe:
  "tag_run Clear (re_sub_delete match_tag prev s) \<noteq> None"
proof (induction "length s" arbitrary: s prev rule: less_induct)
  case less
  show ?case
  proof (cases s)
    case Nil
    then show ?thesis by simp
  next
    case (Cons c cs)
    show ?thesis
    proof (cases "match_tag prev (c # cs)")
      case (Some n)
      from match_tag_Some[OF Some] have n: "0 < n" "n \<le> length (c # cs)" by simp_all
      then have "length (drop n (c # cs)) < length s" using Cons by simp
      from less[OF this] Some n Cons show ?thesis by simp
    next
      case None
      then have out: "re_sub_delete match_tag prev s = c # re_sub_delete match_tag (Some c) cs"
        using Cons by simp
      have IH: "tag_run Clear (re_sub_delete match_tag (Some c) cs) \<noteq> None"
        using less[of cs "Some c"] Cons by simp
      show ?thesis
      proof (cases "c = CHR ''<''")
        case False
        with out IH show ?thesis by simp
      next
        case True
        from match_tag_None[of prev cs] None True
        consider "cs = []" | d ds where "cs = d # ds" "d = CHR ''>''" | "CHR ''>'' \<notin> set cs"
          by (cases cs) auto
        then show ?thesis
        proof cases
          case 1
          with out True show ?thesis by simp
        next
          case 2
          have "match_tag (Some c) (d # ds) = None" using 2 by (simp add: match_tag_def)
          then have "re_sub_delete match_tag (Some c) cs
              = d # re_sub_delete match_tag (Some d) ds"
            using 2 by simp
          moreover have "tag_run Clear (re_sub_delete match_tag (Some d) ds) \<noteq> None"
            using less[of ds "Some d"] Cons 2 by simp
          ultimately show ?thesis using out True 2 by simp
        next
          case 3
          then have "CHR ''>'' \<notin> set (re_sub_delete match_tag (Some c) cs)"
            using set_re_sub_delete[of match_tag "Some c" cs] by blast
          then have "tag_run JustLt (re_sub_delete match_tag (Some c) cs) \<noteq> None"
            by (rule tag_run_no_gt)
          with out True show ?thesis by simp
        qed
      qed
    qed
  qed
qed

lemma re_sub_delete_keeps_safe:
  assumes m: "\<And>prev s n. m prev s = Some n \<Longrightarrow> s \<noteq> [] \<and> hd s \<noteq> CHR ''>''"
  shows "tag_run q s \<noteq> None \<Longrightarrow> tag_run q (re_sub_delete m prev s) \<noteq> None"
proof (induction "length s" arbitrary: s prev q rule: less_induct)
  case less
  show ?case
  proof (cases s)
    case Nil
    then show ?thesis by simp
  next
    case (Cons c cs)
    from less.prems Cons obtain q1 where q1: "tag_step q c = Some q1"
      and rest: "tag_run q1 cs \<noteq> None"
      by (auto split: option.splits)
    have keep: "tag_run q (c # re_sub_delete m (Some c) cs) \<noteq> None"
      using less.hyps[of cs q1 "Some c"] Cons q1 rest by simp
    show ?thesis
    proof (cases "m prev (c # cs)")
      case None
      with keep Cons show ?thesis by simp
    next
      case (Some n)
      show ?thesis
      proof (cases "0 < n \<and> n \<le> length (c # cs)")
        case False
        with keep Cons Some show ?thesis by auto
      next
        case True
        have split: "s = take n s @ drop n s" by simp
        from less.prems have "tag_run q (take n s @ drop n s) \<noteq> None" by simp
        from tag_run_appendD[OF this]
        obtain q' where q': "tag_run q (take n s) = Some q'"
          and after: "tag_run q' (drop n s) \<noteq> None"
          by blast
        from m[OF Some] have "c \<noteq> CHR ''>''" by simp
        with True Cons have "take n s \<noteq> []" "hd (take n s) \<noteq> CHR ''>''"
          by auto
        from tag_run_forward[OF this q'] have "weaker q q'" .
        from tag_run_weaker[OF this after] have "tag_run q (drop n s) \<noteq> None" .
        moreover have "length (drop n s) < length s" using True Cons by simp
        ultimately have "tag_run q (re_sub_delete m (Some (s ! (n - 1))) (drop n s)) \<noteq> None"
          by (rule less.hyps[rotated])
        with Some True Cons show ?thesis by simp
      qed
    qed
  qed
qed

lemma prefix_Cons_hd: "prefix (c # p) s \<Longrightarrow> s \<noteq> [] \<and> hd s = c"
  by (cases s) simp_all

lemma match_url_Some: "match_url prev s = Some n \<Longrightarrow> s \<noteq> [] \<and> hd s \<noteq> CHR ''>''"
proof -
  assume a: "match_url prev s = Some n"
  have "prefix ''https://'' s \<or> prefix ''http://'' s"
  proof (rule ccontr)
    assume "\<not> (prefix ''https://'' s \<or> prefix ''http://'' s)"
    then have "match_url prev s = None" by (simp add: match_url_def)
    with a show False by simp
  qed
  then have "s \<noteq> [] \<and> hd s = CHR ''h''"
    by (auto dest: prefix_Cons_hd)
  then show ?thesis by simp
qed

lemma match_email_Some: "match_email prev s = Some n \<Longrightarrow> s \<noteq> [] \<and> hd s \<noteq> CHR ''>''"
proof -
  assume a: "match_email prev s = Some n"
  have ne: "takeWhile local_char s \<noteq> []"
  proof
    assume "takeWhile local_char s = []"
    then have "match_email prev s = None" by (simp add: match_email_def)
    with a show False by simp
  qed
  then obtain c cs where s: "s = c # cs" and lc: "local_char c"
    by (cases s) (auto split: if_splits)
  have "\<not> local_char (CHR ''>'')" by (simp add: local_char_def ascii_alnum_def)
  with lc have "c \<noteq> CHR ''>''" by auto
  with s show ?thesis by simp
qed

lemma collapse_whitespace_safe:
  "tag_run q s \<noteq> None \<Longrightarrow> tag_run q (collapse_whitespace s) \<noteq> None"
proof (induction s arbitrary: q rule: collapse_whitespace.induct)
  case 1
  then show ?case by simp
next
  case (2 c cs)
  show ?case
  proof (cases "is_space c")
    case False
    from "2.prems" obtain q1 where q1: "tag_step q c = Some q1" "tag_run q1 cs \<noteq> None"
      by (auto split: option.splits)
    from "2.IH"(2)[OF False q1(2)] q1(1) False show ?thesis by simp
  next
    case True
    let ?run = "c # takeWhile is_space cs"
    have whole: "tag_run q (?run @ dropWhile is_space cs) \<noteq> None"
      using "2.prems" by simp
    have "\<forall>x \<in> set ?run. other_char x"
      using True by (auto dest: set_takeWhileD intro: is_space_other)
    then have "tag_run q ?run = Some (after_other q)"
      by (intro tag_run_other) simp_all
    with tag_run_appendD[OF whole]
    have "tag_run (after_other q) (dropWhile is_space cs) \<noteq> None"
      by simp
    from "2.IH"(1)[OF True this]
    have rest: "tag_run (after_other q) (collapse_whitespace (dropWhile is_space cs)) \<noteq> None" .
    have cw: "collapse_whitespace (c # cs)
        = CHR '' '' # collapse_whitespace (dropWhile is_space cs)"
      using True by simp
    have st: "tag_step q (CHR '' '') = Some (after_other q)"
      by (rule tag_step_other) (simp add: other_char_def)
    show ?thesis unfolding cw using st rest by simp
  qed
qed

lemma py_strip_decomp:
  "\<exists>a b. s = a @ py_strip s @ b \<and> (\<forall>c \<in> set a. is_space c) \<and> (\<forall>c \<in> set b. is_space c)"
proof -
  define y where "y = dropWhile is_space s"
  have s: "s = takeWhile is_space s @ y" by (simp add: y_def)
  have "rev (rev y) = rev (takeWhile is_space (rev y) @ dropWhile is_space (rev y))"
    by (simp only: takeWhile_dropWhile_id)
  then have "y = rev (dropWhile is_space (rev y)) @ rev (takeWhile is_space (rev y))"
    by (simp only: rev_append rev_rev_ident)
  then have y: "y = py_strip s @ rev (takeWhile is_space (rev y))"
    by (simp add: py_strip_def y_def)
  have "s = takeWhile is_space s @ py_strip s @ rev (takeWhile is_space (rev y))"
    using s y by simp
  moreover have "\<forall>c \<in> set (takeWhile is_space s). is_space c" by (auto dest: set_takeWhileD)
  moreover have "\<forall>c \<in> set (rev (takeWhile is_space (rev y))). is_space c"
    by (auto dest: set_takeWhileD)
  ultimately show ?thesis by blast
qed

lemma py_strip_safe:
  assumes "tag_run q s = Some r"
  shows "\<exists>r'. tag_run q (py_strip s) = Some r' \<and> weaker r' r"
proof -
  from py_strip_decomp[of s] obtain a b where s: "s = a @ py_strip s @ b"
    and a: "\<forall>c \<in> set a. is_space c" and b: "\<forall>c \<in> set b. is_space c"
    by blast
  from a have "\<forall>c \<in> set a. other_char c" by (auto intro: is_space_other)
  from tag_run_other_weaker[OF this, of q] obtain q0 where q0: "tag_run q a = Some q0" "weaker q q0"
    by blast
  from assms s have "tag_run q (a @ py_strip s @ b) = Some r" by simp
  with q0 obtain q1 where q1: "tag_run q0 (py_strip s) = Some q1" and q2: "tag_run q1 b = Some r"
    by (auto simp: tag_run_append split: option.splits)
  from tag_run_mono[OF q0(2) q1] obtain r' where r': "tag_run q (py_strip s) = Some r'" "weaker r' q1"
    by blast
  from b have "\<forall>c \<in> set b. other_char c" by (auto intro: is_space_other)
  from tag_run_other_weaker[OF this, of q1] q2 have "weaker q1 r" by simp
  with r'(2) have "weaker r' r" by (cases r'; cases q1; cases r) simp_all
  with r'(1) show ?thesis by blast
qed

lemma clean_text_safe:
  assumes "unescape (re_sub_delete match_tag None text) = re_sub_delete match_tag None text"
  shows "tag_run Clear (clean_text unescape text True True True True) \<noteq> None"
proof (cases "text = []")
  case True
  then show ?thesis by (simp add: clean_text_def)
next
  case False
  let ?t1 = "re_sub_delete match_tag None text"
  let ?t2 = "re_sub_delete match_url None ?t1"
  let ?t3 = "re_sub_delete match_email None ?t2"
  have "tag_run Clear ?t1 \<noteq> None" by (rule re_sub_delete_tags_safe)
  then have "tag_run Clear ?t2 \<noteq> None"
    using match_url_Some by (rule re_sub_delete_keeps_safe[rotated])
  then have "tag_run Clear ?t3 \<noteq> None"
    using match_email_Some by (rule re_sub_delete_keeps_safe[rotated])
  then have "tag_run Clear (collapse_whitespace ?t3) \<noteq> None"
    by (rule collapse_whitespace_safe)
  then obtain r where "tag_run Clear (collapse_whitespace ?t3) = Some r" by auto
  from py_strip_safe[OF this] have "tag_run Clear (py_strip (collapse_whitespace ?t3)) \<noteq> None"
    by auto
  with False assms show ?thesis by (simp add: clean_text_def)
qed

lemma py_join_append:
  "py_join sep (xs @ ys) =
     (if xs = [] then py_join sep ys
      else if ys = [] then py_join sep xs
      else py_join sep xs @ sep @ py_join sep ys)"
proof (induction xs)
  case Nil
  then show ?case by simp
next
  case (Cons x xs)
  then show ?case by (cases "xs = []") (simp_all add: py_join_Cons)
qed

lemma sublist_py_join:
  assumes "sublist g ws"
  shows "sublist (py_join sep g) (py_join sep ws)"
proof -
  from assms obtain a b where ws: "ws = a @ g @ b" by (auto simp: sublist_def)
  show ?thesis
  proof (cases "g = []")
    case True
    then show ?thesis by simp
  next
    case False
    define pre where "pre = (if a = [] then [] else py_join sep a @ sep)"
    define post where "post = (if b = [] then [] else sep @ py_join sep b)"
    have "py_join sep ws = pre @ py_join sep g @ post"
      using False by (simp add: ws py_join_append pre_def post_def)
    then show ?thesis by (simp add: sublist_appendI)
  qed
qed

lemma sublist_safe:
  assumes "sublist u s" and "tag_run Clear s \<noteq> None"
  shows "tag_run Clear u \<noteq> None"
proof -
  from assms(1) obtain a b where s: "s = a @ u @ b" by (auto simp: sublist_def)
  from assms(2) have "tag_run Clear (a @ u @ b) \<noteq> None" by (simp add: s)
  from tag_run_appendD[OF this] obtain q where "tag_run q (u @ b) \<noteq> None" by blast
  from tag_run_appendD[OF this] have "tag_run q u \<noteq> None" by auto
  then show ?thesis by (rule tag_run_weaker[rotated]) simp
qed

lemma split_ws_safe:
  "tag_run q (w @ s) \<noteq> None \<Longrightarrow> tag_run q (py_join '' '' (split_ws w s)) \<noteq> None"
proof (induction s arbitrary: w q)
  case Nil
  then show ?case by simp
next
  case (Cons c cs)
  show ?case
  proof (cases "is_space c")
    case False
    have "tag_run q ((w @ [c]) @ cs) \<noteq> None" using Cons.prems by simp
    from Cons.IH[OF this] False show ?thesis by simp
  next
    case True
    then have oc: "tag_step q' c = Some (after_other q')" for q'
      by (intro tag_step_other is_space_other)
    show ?thesis
    proof (cases "w = []")
      case w: True
      with Cons.prems oc have "tag_run (after_other q) cs \<noteq> None" by simp
      then have "tag_run q cs \<noteq> None"
        by (rule tag_run_weaker[OF weaker_after_other])
      then have "tag_run q ([] @ cs) \<noteq> None" by simp
      from Cons.IH[OF this] True w show ?thesis by simp
    next
      case w: False
      from tag_run_appendD[OF Cons.prems] obtain q1 where q1: "tag_run q w = Some q1"
        and r: "tag_run q1 (c # cs) \<noteq> None"
        by blast
      from r oc have "tag_run (after_other q1) ([] @ cs) \<noteq> None" by simp
      from Cons.IH[OF this]
      have rest: "tag_run (after_other q1) (py_join '' '' (split_ws [] cs)) \<noteq> None" .
      have bl: "tag_step q1 (CHR '' '') = Some (after_other q1)"
        by (rule tag_step_other) (simp add: other_char_def)
      have out: "split_ws w (c # cs) = w # split_ws [] cs" using True w by simp
      show ?thesis
      proof (cases "split_ws [] cs = []")
        case True
        with q1 show ?thesis unfolding out by simp
      next
        case False
        then have "py_join '' '' (w # split_ws [] cs)
            = w @ CHR '' '' # py_join '' '' (split_ws [] cs)"
          by (simp add: py_join_Cons)
        with q1 bl rest show ?thesis unfolding out by (simp add: tag_run_append)
      qed
    qed
  qed
qed

lemma py_split_safe:
  "tag_run q s \<noteq> None \<Longrightarrow> tag_run q (py_join '' '' (py_split s)) \<noteq> None"
  using split_ws_safe[of q "[]" s] by (simp add: py_split_def)

lemma stripped_pieces_Cons:
  "stripped_pieces (p # ps) =
     (if py_strip p = [] then stripped_pieces ps else py_strip p # stripped_pieces ps)"
  by (simp add: stripped_pieces_def)

lemma py_strip_Nil_spaces: "py_strip s = [] \<Longrightarrow> \<forall>c \<in> set s. is_space c"
proof -
  assume e: "py_strip s = []"
  from py_strip_decomp[of s] obtain a b where "s = a @ py_strip s @ b"
    and "\<forall>c \<in> set a. is_space c" and "\<forall>c \<in> set b. is_space c"
    by blast
  with e have "s = a @ b" by simp
  then have "set s = set a \<union> set b" by simp
  with \<open>\<forall>c \<in> set a. is_space c\<close> \<open>\<forall>c \<in> set b. is_space c\<close> show ?thesis by blast
qed

lemma py_strip_safe_ne:
  "tag_run q s \<noteq> None \<Longrightarrow> tag_run q (py_strip s) \<noteq> None"
  using py_strip_safe[of q s] by auto

lemma re_split_acc_safe:
  assumes "in_run \<longrightarrow> piece = []" and "tag_run q (piece @ s) \<noteq> None"
  shows "tag_run q (py_join '' '' (stripped_pieces (re_split_acc piece in_run s))) \<noteq> None"
  using assms
proof (induction s arbitrary: piece in_run q)
  case Nil
  then have "tag_run q (py_strip piece) \<noteq> None" by (intro py_strip_safe_ne) simp
  then show ?case by (simp add: stripped_pieces_Cons stripped_pieces_def)
next
  case (Cons c cs)
  show ?case
  proof (cases "is_terminator c")
    case False
    have "tag_run q ((piece @ [c]) @ cs) \<noteq> None" using Cons.prems(2) by simp
    from Cons.IH[of False "piece @ [c]" q] this False show ?thesis by simp
  next
    case True
    then have oc: "tag_step q' c = Some (after_other q')" for q'
      by (intro tag_step_other is_terminator_other)
    show ?thesis
    proof (cases in_run)
      case ir: True
      with Cons.prems(1) have p: "piece = []" by simp
      with Cons.prems(2) oc have "tag_run (after_other q) cs \<noteq> None" by simp
      then have "tag_run q cs \<noteq> None"
        by (rule tag_run_weaker[OF weaker_after_other])
      then have "tag_run q ([] @ cs) \<noteq> None" by simp
      from Cons.IH[of True "[]" q] this True ir show ?thesis by simp
    next
      case ir: False
      have out: "re_split_acc piece in_run (c # cs) = piece # re_split_acc [] True cs"
        using True ir by simp
      from tag_run_appendD[OF Cons.prems(2)] obtain q1 where q1: "tag_run q piece = Some q1"
        and r: "tag_run q1 (c # cs) \<noteq> None"
        by blast
      from r oc have after: "tag_run (after_other q1) cs \<noteq> None" by simp
      show ?thesis
      proof (cases "py_strip piece = []")
        case blank: True
        then have "\<forall>x \<in> set piece. other_char x"
          by (auto dest: py_strip_Nil_spaces intro: is_space_other)
        from tag_run_other_weaker[OF this, of q] q1 have "weaker q q1" by simp
        moreover have "weaker q1 (after_other q1)" by (rule weaker_after_other)
        ultimately have "weaker q (after_other q1)"
          by (cases q; cases q1) simp_all
        from tag_run_weaker[OF this after] have "tag_run q ([] @ cs) \<noteq> None" by simp
        from Cons.IH[of True "[]" q] this blank show ?thesis
          unfolding out by (simp add: stripped_pieces_Cons)
      next
        case nonblank: False
        from py_strip_safe[OF q1] obtain q1' where q1': "tag_run q (py_strip piece) = Some q1'"
          and w: "weaker q1' q1"
          by blast
        from after have "tag_run (after_other q1) ([] @ cs) \<noteq> None" by simp
        from Cons.IH[of True "[]" "after_other q1"] this
        have "tag_run (after_other q1)
            (py_join '' '' (stripped_pieces (re_split_acc [] True cs))) \<noteq> None"
          by simp
        from tag_run_weaker[OF after_other_mono[OF w] this]
        have rest: "tag_run (after_other q1')
            (py_join '' '' (stripped_pieces (re_split_acc [] True cs))) \<noteq> None" .
        have bl: "tag_step q1' (CHR '' '') = Some (after_other q1')"
          by (rule tag_step_other) (simp add: other_char_def)
        show ?thesis
        proof (cases "stripped_pieces (re_split_acc [] True cs) = []")
          case True
          with q1' nonblank show ?thesis unfolding out by (simp add: stripped_pieces_Cons)
        next
          case False
          then have "py_join '' '' (py_strip piece # stripped_pieces (re_split_acc [] True cs))
              = py_strip piece @ CHR '' '' #
                py_join '' '' (stripped_pieces (re_split_acc [] True cs))"
            by (simp add: py_join_Cons)
          with q1' bl rest nonblank show ?thesis
            unfolding out by (simp add: stripped_pieces_Cons tag_run_append)
        qed
      qed
    qed
  qed
qed

lemma sentences_of_safe:
  "tag_run q s \<noteq> None \<Longrightarrow> tag_run q (py_join '' '' (sentences_of s)) \<noteq> None"
  using re_split_acc_safe[of False "[]" q s]
  by (simp add: sentences_of_def re_split_terminators_def stripped_pieces_def)

lemma in_groups_sublist: "g \<in> set groups \<Longrightarrow> sublist g (concat groups)"
proof -
  assume "g \<in> set groups"
  then obtain xs ys where "groups = xs @ g # ys" by (auto dest: split_list)
  then have "concat groups = concat xs @ g @ concat ys" by simp
  then show ?thesis by (simp only: sublist_appendI)
qed

lemma suffix_sublist_append: "suffix ws done \<Longrightarrow> sublist ws (done @ rest)"
proof -
  assume "suffix ws done"
  then obtain p where "done = p @ ws" by (auto simp: suffix_def)
  then have "done @ rest = p @ ws @ rest" by simp
  then show ?thesis by (simp only: sublist_appendI)
qed

lemma suffix_py_slice_from: "suffix (py_slice_from n xs) xs"
  by (simp add: py_slice_from_def suffix_drop)

lemma word_loop_runs:
  assumes "\<forall>w \<in> set rest. space_free w" and "holds_words cur ws" and "suffix ws done"
    and "\<forall>c \<in> set chunks. \<exists>g. sublist g (done @ rest) \<and> c = py_join '' '' g"
  shows "\<exists>chunks' cur' ws'.
      word_loop cs co rest chunks cur = (chunks', cur') \<and> holds_words cur' ws' \<and>
      suffix ws' (done @ rest) \<and>
      (\<forall>c \<in> set chunks'. \<exists>g. sublist g (done @ rest) \<and> c = py_join '' '' g)"
  using assms
proof (induction rest arbitrary: cur ws "done" chunks)
  case Nil
  then show ?case by auto
next
  case (Cons word rest)
  have w: "space_free word" and r: "\<forall>w \<in> set rest. space_free w"
    using Cons.prems(1) by simp_all
  have split: "py_split cur = ws" using Cons.prems(2) by (rule holds_words_split)
  have W: "(done @ [word]) @ rest = done @ word # rest" by simp
  show ?case
  proof (cases "int (length cur) + int (length word) + 1 > cs \<and> cur \<noteq> []")
    case True
    then have ne: "ws \<noteq> []" using holds_words_nil[OF Cons.prems(2)] by simp
    have strip: "py_strip cur = py_join '' '' ws"
      using Cons.prems(2) ne by (rule holds_words_strip)
    define ov where "ov = py_slice_from ((- co) div 10) ws"
    have ovs: "suffix ov ws" unfolding ov_def by (rule suffix_py_slice_from)
    then have "set ov \<subseteq> set ws" by (rule set_mono_suffix)
    then have ovf: "\<forall>w \<in> set ov. space_free w"
      using holds_words_free[OF Cons.prems(2)] by blast
    have step: "word_loop cs co (word # rest) chunks cur
        = word_loop cs co rest (chunks @ [py_join '' '' ws]) (py_join '' '' ov @ '' '' @ word)"
      using True by (simp add: Let_def split strip ov_def)
    have h: "holds_words (py_join '' '' ov @ '' '' @ word) (ov @ [word])"
      using ovf w by (rule holds_words_overlap)
    have "suffix ov done" using ovs Cons.prems(3) by (rule suffix_order.trans)
    then have s: "suffix (ov @ [word]) (done @ [word])" by simp
    have "sublist ws (done @ word # rest)"
      using Cons.prems(3) by (rule suffix_sublist_append)
    with Cons.prems(4)
    have c: "\<forall>c \<in> set (chunks @ [py_join '' '' ws]).
        \<exists>g. sublist g ((done @ [word]) @ rest) \<and> c = py_join '' '' g"
      unfolding W by auto
    from Cons.IH[OF r h s c] show ?thesis unfolding step W .
  next
    case False
    have step: "word_loop cs co (word # rest) chunks cur
        = word_loop cs co rest chunks (if cur \<noteq> [] then cur @ '' '' @ word else word)"
      using False by auto
    have h: "holds_words (if cur \<noteq> [] then cur @ '' '' @ word else word) (ws @ [word])"
      using Cons.prems(2) w by (rule holds_words_add)
    have s: "suffix (ws @ [word]) (done @ [word])" using Cons.prems(3) by simp
    have c: "\<forall>c \<in> set chunks. \<exists>g. sublist g ((done @ [word]) @ rest) \<and> c = py_join '' '' g"
      using Cons.prems(4) unfolding W .
    from Cons.IH[OF r h s c] show ?thesis unfolding step W .
  qed
qed

lemma word_chunks_runs:
  assumes "\<forall>w \<in> set words. space_free w"
  shows "\<forall>c \<in> set (word_chunks words cs co). \<exists>g. sublist g words \<and> c = py_join '' '' g"
proof -
  have h0: "holds_words [] []" by (simp add: holds_words_def)
  have s0: "suffix ([] :: string list) []" by simp
  have c0: "\<forall>c \<in> set ([] :: string list). \<exists>g. sublist g ([] @ words) \<and> c = py_join '' '' g"
    by simp
  from word_loop_runs[OF assms h0 s0 c0, of cs co]
  obtain chunks cur ws where loop: "word_loop cs co words [] [] = (chunks, cur)"
    and h: "holds_words cur ws" and suf: "suffix ws words"
    and all: "\<forall>c \<in> set chunks. \<exists>g. sublist g words \<and> c = py_join '' '' g"
    by auto
  show ?thesis
  proof (cases "cur = []")
    case True
    with loop all show ?thesis by (simp add: word_chunks_def)
  next
    case False
    then have ne: "ws \<noteq> []" using holds_words_nil[OF h] by simp
    have "sublist ws words" using suf by (rule suffix_imp_sublist)
    then have "\<exists>g. sublist g words \<and> py_strip cur = py_join '' '' g"
      using holds_words_strip[OF h ne] by blast
    with loop False all show ?thesis by (simp add: word_chunks_def)
  qed
qed

lemma sentence_chunks_runs:
  assumes "\<forall>s \<in> set sentences. trimmed s"
  shows "\<forall>c \<in> set (sentence_chunks sentences mn mx).
           \<exists>g. sublist g sentences \<and> c = py_join '' '' g"
proof -
  from sentence_chunks_groups[OF assms, of mn mx]
  obtain groups where cat: "concat groups = sentences"
    and sc: "sentence_chunks sentences mn mx = map (py_join '' '') (filter (keeps mn) groups)"
    by blast
  show ?thesis
  proof
    fix c
    assume "c \<in> set (sentence_chunks sentences mn mx)"
    then obtain g where g: "g \<in> set groups" and c: "c = py_join '' '' g"
      unfolding sc by auto
    from in_groups_sublist[OF g] cat have "sublist g sentences" by simp
    with c show "\<exists>g. sublist g sentences \<and> c = py_join '' '' g" by blast
  qed
qed

lemma chunk_text_segment_of:
  "\<forall>c \<in> set (chunk_text unescape text cs co mn mx).
     segment_of (clean_text unescape text True True True True) c"
proof (cases "text = []")
  case True
  then show ?thesis by (simp add: chunk_text_def)
next
  case False
  let ?cleaned = "clean_text unescape text True True True True"
  show ?thesis
  proof (cases "length (sentence_chunks (sentences_of ?cleaned) mn mx) \<le> 1")
    case True
    then have "chunk_text unescape text cs co mn mx = word_chunks (py_split ?cleaned) cs co"
      by (simp add: chunk_text_nonempty[OF False])
    with word_chunks_runs[OF py_split_words, of ?cleaned cs co] show ?thesis
      unfolding segment_of_def by metis
  next
    case long: False
    then have "chunk_text unescape text cs co mn mx
        = sentence_chunks (sentences_of ?cleaned) mn mx"
      by (simp add: chunk_text_nonempty[OF False])
    with sentence_chunks_runs[OF sentences_of_trimmed, of ?cleaned mn mx] show ?thesis
      unfolding segment_of_def by metis
  qed
qed

lemma segment_of_no_tag:
  assumes "segment_of cleaned c" and "tag_run Clear cleaned \<noteq> None"
  shows "\<not> holds_tag c"
proof -
  from assms(1) obtain g where g: "sublist g (sentences_of cleaned) \<or> sublist g (py_split cleaned)"
    and c: "c = py_join '' '' g"
    unfolding segment_of_def by blast
  have "tag_run Clear c \<noteq> None"
    using g
  proof
    assume "sublist g (sentences_of cleaned)"
    then have "sublist c (py_join '' '' (sentences_of cleaned))"
      unfolding c by (rule sublist_py_join)
    then show ?thesis using sentences_of_safe[OF assms(2)] by (rule sublist_safe)
  next
    assume "sublist g (py_split cleaned)"
    then have "sublist c (py_join '' '' (py_split cleaned))"
      unfolding c by (rule sublist_py_join)
    then show ?thesis using py_split_safe[OF assms(2)] by (rule sublist_safe)
  qed
  from tag_run_no_tag[OF this] show ?thesis by (simp add: holds_tag_def)
qed

text \<open>
  Claim C10, amended. \<open>chunk_text\<close> segments the cleaned text: every chunk is the
  join of consecutive sentences, or of consecutive words, of \<open>clean_text(text)\<close>. When
  \<open>html.unescape\<close> leaves the text without tags as it is, no chunk holds a match of the
  tag pattern.
\<close>

theorem chunk_text_segments:
  "(\<forall>c \<in> set (chunk_text unescape text chunk_size chunk_overlap min_chunk_size max_chunk_size).
      segment_of (clean_text unescape text True True True True) c) \<and>
   (unescape (re_sub_delete match_tag None text) = re_sub_delete match_tag None text \<longrightarrow>
      (\<forall>c \<in> set (chunk_text unescape text chunk_size chunk_overlap min_chunk_size
                     max_chunk_size). \<not> holds_tag c))"
proof (intro conjI impI ballI)
  fix c
  assume "c \<in> set (chunk_text unescape text chunk_size chunk_overlap min_chunk_size
      max_chunk_size)"
  with chunk_text_segment_of
  show "segment_of (clean_text unescape text True True True True) c" by blast
next
  fix c
  assume u: "unescape (re_sub_delete match_tag None text) = re_sub_delete match_tag None text"
    and "c \<in> set (chunk_text unescape text chunk_size chunk_overlap min_chunk_size
      max_chunk_size)"
  with chunk_text_segment_of
  have "segment_of (clean_text unescape text True True True True) c" by blast
  then show "\<not> holds_tag c"
    using clean_text_safe[of unescape "text", OF u] by (rule segment_of_no_tag)
qed

theorem chunk_text_segments_witness:
  "unescape_plain (re_sub_delete match_tag None ''<p>Hello <b>world</b>. Bye now.</p>'')
     = re_sub_delete match_tag None ''<p>Hello <b>world</b>. Bye now.</p>'' \<and>
   chunk_text unescape_plain ''<p>Hello <b>world</b>. Bye now.</p>'' 1000 200 5 2000
     = [''Hello world. Bye now.''] \<and>
   segment_of (clean_text unescape_plain ''<p>Hello <b>world</b>. Bye now.</p>''
      True True True True) ''Hello world. Bye now.'' \<and>
   \<not> holds_tag ''Hello world. Bye now.''"
proof -
  have u: "unescape_plain (re_sub_delete match_tag None ''<p>Hello <b>world</b>. Bye now.</p>'')
     = re_sub_delete match_tag None ''<p>Hello <b>world</b>. Bye now.</p>''"
    by (simp only: unescape_plain_def)
  have run: "chunk_text unescape_plain ''<p>Hello <b>world</b>. Bye now.</p>'' 1000 200 5 2000
     = [''Hello world. Bye now.'']"
    by code_simp
  have m: "''Hello world. Bye now.'' \<in> set (chunk_text unescape_plain
      ''<p>Hello <b>world</b>. Bye now.</p>'' 1000 200 5 2000)"
    unfolding run by simp
  from chunk_text_segments[of unescape_plain "''<p>Hello <b>world</b>. Bye now.</p>''"
      1000 200 5 2000] u m
  have "segment_of (clean_text unescape_plain ''<p>Hello <b>world</b>. Bye now.</p>''
      True True True True) ''Hello world. Bye now.''"
    and "\<not> holds_tag ''Hello world. Bye now.''"
    by blast+
  with u run show ?thesis by (intro conjI)
qed

text \<open>
  Claim C10, as stated, fails for addresses. The pattern ends with \<open>\b\<close>, so an
  e-mail address followed by an underscore is not matched and stays in the chunk; and
  the deletion of an address from inside \<open>http:/a@b.co/x.y\<close> leaves the URL
  \<open>http://x.y\<close>, which also stands in the raw text, in the chunk.
\<close>

theorem chunk_text_address_counterexample:
  "is_email ''bob@example.com'' \<and>
   sublist ''bob@example.com'' ''mail bob@example.com_ now'' \<and>
   chunk_text unescape_plain ''mail bob@example.com_ now'' 1000 200 100 2000
     = [''mail bob@example.com_ now''] \<and>
   is_url ''http://x.y'' \<and>
   sublist ''http://x.y'' ''http://x.y http:/a@b.co/x.y'' \<and>
   chunk_text unescape_plain ''http://x.y http:/a@b.co/x.y'' 1000 200 100 2000
     = [''http://x.y'']"
proof -
  have "sublist ''bob@example.com'' (''mail '' @ ''bob@example.com'' @ ''_ now'')"
    by (rule sublist_appendI)
  then have s1: "sublist ''bob@example.com'' ''mail bob@example.com_ now''" by simp
  have "sublist ''http://x.y'' ([] @ ''http://x.y'' @ '' http:/a@b.co/x.y'')"
    by (rule sublist_appendI)
  then have s2: "sublist ''http://x.y'' ''http://x.y http:/a@b.co/x.y''" by simp
  have e: "is_email ''bob@example.com''" by code_simp
  have u: "is_url ''http://x.y''" by code_simp
  have c1: "chunk_text unescape_plain ''mail bob@example.com_ now'' 1000 200 100 2000
     = [''mail bob@example.com_ now'']"
    by code_simp
  have c2: "chunk_text unescape_plain ''http://x.y http:/a@b.co/x.y'' 1000 200 100 2000
     = [''http://x.y'']"
    by code_simp
  from e s1 c1 u s2 c2 show ?thesis by (intro conjI)
qed

end
